theory Spec2Isabelle
  imports Complex_Main "HOL-Library.Word"
begin

unbundle bit_operations_syntax

section \<open>Keyed hash function (sip.hpp)\<close>

type_synonym u8 = "8 word"
type_synonym u64 = "64 word"

text \<open>
  \<^verbatim>\<open>Sip13Hasher::rotl\<close>: \<^verbatim>\<open>(x << b) | (x >> (64 - b))\<close> on \<^verbatim>\<open>uint64_t\<close>.
  It is only called with \<open>b\<close> in 13, 16, 17, 21, 32.
\<close>

definition rotl :: "u64 \<Rightarrow> nat \<Rightarrow> u64" where
  "rotl x b = push_bit b x OR drop_bit (64 - b) x"

text \<open>
  \<^verbatim>\<open>Sip13Hasher::sipround\<close>: the four words are updated in place through pointers;
  the model threads them as a tuple, one \<open>let\<close> per assignment of the source.
\<close>

type_synonym sipstate = "u64 \<times> u64 \<times> u64 \<times> u64"

definition sipround :: "sipstate \<Rightarrow> sipstate" where
  "sipround s = (case s of (v0, v1, v2, v3) \<Rightarrow>
     let v0 = v0 + v1;
         v1 = rotl v1 13;
         v1 = v1 XOR v0;
         v0 = rotl v0 32;
         v2 = v2 + v3;
         v3 = rotl v3 16;
         v3 = v3 XOR v2;
         v0 = v0 + v3;
         v3 = rotl v3 21;
         v3 = v3 XOR v0;
         v2 = v2 + v1;
         v1 = rotl v1 17;
         v1 = v1 XOR v2;
         v2 = rotl v2 32
     in (v0, v1, v2, v3))"

text \<open>
  The inner loop of \<^verbatim>\<open>hash\<close>: \<^verbatim>\<open>for (i = 0; i < 8; i++) m |= ((uint64_t)p[i]) << (i * 8)\<close>,
  reading the eight bytes at offset \<open>p\<close> of the byte view.
\<close>

definition read_m :: "u8 list \<Rightarrow> nat \<Rightarrow> u64" where
  "read_m data p = fold (\<lambda>i m. m OR push_bit (i * 8) (ucast (data ! (p + i)))) [0..<8] 0"

text \<open>
  The loop over the full 8-byte chunks:
  \<^verbatim>\<open>for (p = data; p < chunks_end; p += 8) { m = ...; v3 ^= m; sipround; v0 ^= m; }\<close>.
  Pointers into the byte view are modelled as offsets from \<^verbatim>\<open>data\<close>.
\<close>

function chunks_loop :: "u8 list \<Rightarrow> nat \<Rightarrow> nat \<Rightarrow> sipstate \<Rightarrow> sipstate" where
  "chunks_loop data chunks_end p s =
     (if p < chunks_end then
        (case s of (v0, v1, v2, v3) \<Rightarrow>
           let m = read_m data p;
               v3 = v3 XOR m
           in (case sipround (v0, v1, v2, v3) of (v0, v1, v2, v3) \<Rightarrow>
                 chunks_loop data chunks_end (p + 8) (v0 XOR m, v1, v2, v3)))
      else s)"
  by pat_completeness auto
termination
  by (relation "measure (\<lambda>(data, chunks_end, p, s). chunks_end - p)") auto

declare chunks_loop.simps [simp del]

text \<open>
  The \<^verbatim>\<open>switch (len & 7)\<close> with fall-through: entering at case \<open>r\<close> runs the
  statements of every case from \<open>r\<close> down to 1, so the statement of case \<open>c\<close> runs
  exactly when \<open>c \<le> r\<close>.
\<close>

definition tail_switch :: "u8 list \<Rightarrow> nat \<Rightarrow> nat \<Rightarrow> u64 \<Rightarrow> u64" where
  "tail_switch data tail_start r b =
     (let b = (if 7 \<le> r then b OR push_bit 48 (ucast (data ! (tail_start + 6))) else b);
          b = (if 6 \<le> r then b OR push_bit 40 (ucast (data ! (tail_start + 5))) else b);
          b = (if 5 \<le> r then b OR push_bit 32 (ucast (data ! (tail_start + 4))) else b);
          b = (if 4 \<le> r then b OR push_bit 24 (ucast (data ! (tail_start + 3))) else b);
          b = (if 3 \<le> r then b OR push_bit 16 (ucast (data ! (tail_start + 2))) else b);
          b = (if 2 \<le> r then b OR push_bit 8 (ucast (data ! (tail_start + 1))) else b);
          b = (if 1 \<le> r then b OR ucast (data ! (tail_start + 0)) else b)
      in b)"

text \<open>
  \<^verbatim>\<open>Sip13Hasher::hash\<close> on the byte view \<open>data\<close> of the key (\<^verbatim>\<open>hash_bytes(key)\<close>),
  under the seeds \<open>k0\<close>, \<open>k1\<close> of the hasher. \<^verbatim>\<open>len\<close> is a \<^verbatim>\<open>size_t\<close>;
  \<^verbatim>\<open>((uint64_t)len) << 56\<close> keeps its low byte only, which \<open>push_bit\<close> on a
  64-bit word does as well. \<^verbatim>\<open>len & (~7)\<close> clears the low three bits of \<open>len\<close>.
\<close>

definition Sip13Hasher_hash :: "u64 \<Rightarrow> u64 \<Rightarrow> u8 list \<Rightarrow> u64" where
  "Sip13Hasher_hash k0 k1 data =
     (let len = length data;
          v0 = 0x736f6d6570736575 XOR k0;
          v1 = 0x646f72616e646f6d XOR k1;
          v2 = 0x6c7967656e657261 XOR k0;
          v3 = 0x7465646279746573 XOR k1;
          chunks_end = len - (len mod 8)
      in (case chunks_loop data chunks_end 0 (v0, v1, v2, v3) of (v0, v1, v2, v3) \<Rightarrow>
            let b = push_bit 56 (of_nat len :: u64);
                tail_start = len - len mod 8;
                b = tail_switch data tail_start (len mod 8) b;
                v3 = v3 XOR b
            in (case sipround (v0, v1, v2, v3) of (v0, v1, v2, v3) \<Rightarrow>
                  let v0 = v0 XOR b;
                      v2 = v2 XOR 0xff
                  in (case sipround (sipround (sipround (v0, v1, v2, v3))) of
                        (v0, v1, v2, v3) \<Rightarrow> v0 XOR v1 XOR v2 XOR v3))))"

text \<open>
  The default arguments of the constructor:
  \<^verbatim>\<open>Sip13Hasher(uint64_t k0 = 0x0706050403020100, uint64_t k1 = 0x0f0e0d0c0b0a0908)\<close>.
\<close>

definition DEFAULT_K0 :: u64 where
  "DEFAULT_K0 = 0x0706050403020100"

definition DEFAULT_K1 :: u64 where
  "DEFAULT_K1 = 0x0f0e0d0c0b0a0908"

subsection \<open>SipHash-1-3 as the specification words it\<close>

text \<open>
  A second description, following the prose of the specification instead of the source
  and sharing no definition with it.

  The mixing round is written as the add-rotate-xor network of SipHash, with the
  library's rotation \<^const>\<open>word_rotl\<close>: the first half adds the second word into the first
  and the fourth into the third, rotates the second by 13 and the fourth by 16, XORs
  each with the sum beside it and rotates the first sum by 32; the second half does the
  same across (first with fourth, third with second), with the rotations 21 and 17,
  and rotates the third by 32.
\<close>

definition spec_sipround :: "sipstate \<Rightarrow> sipstate" where
  "spec_sipround s = (case s of (a, b, c, d) \<Rightarrow>
     let ab = a + b;
         cd = c + d;
         b1 = word_rotl 13 b XOR ab;
         d1 = word_rotl 16 d XOR cd;
         ad = word_rotl 32 ab + d1;
         cb = cd + b1
     in (ad, word_rotl 17 b1 XOR cb, word_rotl 32 cb, word_rotl 21 d1 XOR ad))"

text \<open>
  The input is cut into full 8-byte words, each read little-endian; a padding word holds
  the trailing bytes and the length modulo 256 in its top byte; every word is absorbed
  by XOR into the fourth state word, one round, XOR into the first; finalisation XORs
  \<open>0xff\<close> into the third state word, runs three rounds and XORs the four words.
\<close>

fun le64 :: "u8 list \<Rightarrow> u64" where
  "le64 [] = 0"
| "le64 (b # bs) = ucast b OR push_bit 8 (le64 bs)"

function full_words :: "u8 list \<Rightarrow> u8 list list" where
  "full_words bs = (if 8 \<le> length bs then take 8 bs # full_words (drop 8 bs) else [])"
  by pat_completeness auto
termination
  by (relation "measure length") auto

declare full_words.simps [simp del]

definition absorb :: "sipstate \<Rightarrow> u64 \<Rightarrow> sipstate" where
  "absorb s m = (case s of (v0, v1, v2, v3) \<Rightarrow>
     (case spec_sipround (v0, v1, v2, v3 XOR m) of (v0, v1, v2, v3) \<Rightarrow> (v0 XOR m, v1, v2, v3)))"

definition padding_word :: "u8 list \<Rightarrow> u64" where
  "padding_word bs =
     le64 (drop (length bs - length bs mod 8) bs) OR push_bit 56 (of_nat (length bs mod 256))"

definition sip13_from :: "sipstate \<Rightarrow> u8 list \<Rightarrow> u64" where
  "sip13_from init bs =
     (let s = foldl absorb init (map le64 (full_words bs));
          s = absorb s (padding_word bs)
      in (case s of (v0, v1, v2, v3) \<Rightarrow>
            (case spec_sipround (spec_sipround (spec_sipround (v0, v1, v2 XOR 0xff, v3))) of
               (v0, v1, v2, v3) \<Rightarrow> v0 XOR v1 XOR v2 XOR v3)))"

text \<open>
  The initial state as section 4.2 of the specification words it: the first two
  constants (\<open>"somepseu"\<close>, \<open>"dorandom"\<close>) each XORed with \<open>seed0\<close>, the other two
  (\<open>"lygenera"\<close>, \<open>"tedbytes"\<close>) with \<open>seed1\<close>.
\<close>

definition sip13_spec :: "u64 \<Rightarrow> u64 \<Rightarrow> u8 list \<Rightarrow> u64" where
  "sip13_spec seed0 seed1 bs =
     sip13_from (0x736f6d6570736575 XOR seed0, 0x646f72616e646f6d XOR seed0,
                 0x6c7967656e657261 XOR seed1, 0x7465646279746573 XOR seed1) bs"

text \<open>
  The initial state of SipHash as published: the seeds alternate, \<open>seed0\<close> with the
  first and third constant, \<open>seed1\<close> with the second and fourth.
\<close>

definition sip13_alternating :: "u64 \<Rightarrow> u64 \<Rightarrow> u8 list \<Rightarrow> u64" where
  "sip13_alternating seed0 seed1 bs =
     sip13_from (0x736f6d6570736575 XOR seed0, 0x646f72616e646f6d XOR seed1,
                 0x6c7967656e657261 XOR seed0, 0x7465646279746573 XOR seed1) bs"

section \<open>The hash maps: common conventions\<close>

text \<open>
  The maps are class templates over the key type, the value type and a hasher type
  \<^verbatim>\<open>H\<close>. The chaining and the probing map default-construct one hasher and never replace
  it, so their model takes the hash function \<open>hasher :: 'k \<Rightarrow> u64\<close> as a parameter
  (\<^verbatim>\<open>hasher.hash(key)\<close>). Keys are compared with HOL equality (\<^verbatim>\<open>operator==\<close>).

  Sizes and capacities are \<^verbatim>\<open>size_t\<close> in the source and natural numbers here: memory
  is taken as unbounded, no allocation fails and no counter reaches \<open>2^64\<close>. The
  decrements of the source are applied only where the counter is positive on every
  state that the public operations can produce (lemmas \<open>lp_reachable_inv\<close>,
  \<open>sc_reachable_inv\<close> and \<open>ck_reachable_inv\<close> below), so truncation and wrap-around
  do not arise.

  The load-factor tests of the source are comparisons of doubles,
  \<^verbatim>\<open>static_cast<double>(n) / capacity > MAX_LOAD_FACTOR\<close>. They are modelled by the exact
  comparison of the fractions, cross-multiplied: \<open>4 * n > 3 * capacity\<close> for 0.75,
  \<open>10 * n > 7 * capacity\<close> for 0.7 and \<open>2 * n > capacity\<close> for 0.5. For 0.75 and 0.5 this
  is what IEEE arithmetic computes; for 0.7 the two agree for every capacity below
  \<open>2^52\<close>. With capacity 0 the quotient is infinite or not a number, and the
  cross-multiplied test gives the same answer as the comparison of doubles.

  What C++ leaves undefined (the remainder by a zero capacity, an index outside a
  vector) is the failure \<open>Undefined\<close> of the model; the exceptions of the source are the
  other failures.
\<close>

datatype exn =
    KeyNotFound        \<comment> \<open>\<^verbatim>\<open>std::out_of_range\<close> of \<^verbatim>\<open>at\<close>\<close>
  | TableFull          \<comment> \<open>\<^verbatim>\<open>std::runtime_error("Hash table is full")\<close>\<close>
  | CapacityExhausted  \<comment> \<open>\<^verbatim>\<open>std::runtime_error("Failed to insert after maximum rehash attempts")\<close>\<close>
  | InternalError      \<comment> \<open>\<^verbatim>\<open>std::runtime_error("Internal error: failed to insert in operator[]")\<close>\<close>
  | Undefined          \<comment> \<open>undefined behaviour: \<^verbatim>\<open>% 0\<close>, or an index out of range\<close>

text \<open>A range-for loop whose body updates the map and may throw.\<close>

fun foldE :: "('a \<Rightarrow> 's \<Rightarrow> exn + 's) \<Rightarrow> 'a list \<Rightarrow> 's \<Rightarrow> exn + 's" where
  "foldE f [] s = Inr s"
| "foldE f (x # xs) s = (case f x s of Inl e \<Rightarrow> Inl e | Inr s' \<Rightarrow> foldE f xs s')"

section \<open>Chaining map (schashmap.hpp)\<close>

record ('k, 'v) ScHashMap =
  sc_buckets :: "('k \<times> 'v) list list"
  sc_size_count :: nat
  sc_capacity :: nat

text \<open>The constructor: \<^verbatim>\<open>buckets.resize(capacity)\<close> on an empty vector.\<close>

definition sc_new :: "nat \<Rightarrow> ('k, 'v) ScHashMap" where
  "sc_new initial_capacity =
     \<lparr>sc_buckets = replicate initial_capacity [], sc_size_count = 0,
      sc_capacity = initial_capacity\<rparr>"

definition sc_get_bucket_index :: "('k \<Rightarrow> u64) \<Rightarrow> ('k, 'v) ScHashMap \<Rightarrow> 'k \<Rightarrow> exn + nat" where
  "sc_get_bucket_index hasher s key =
     (if sc_capacity s = 0 then Inl Undefined
      else Inr (unat (hasher key) mod sc_capacity s))"

text \<open>The scan of a bucket for the first entry with the key, as in \<^verbatim>\<open>at\<close>.\<close>

fun bucket_find :: "('k \<times> 'v) list \<Rightarrow> 'k \<Rightarrow> 'v option" where
  "bucket_find [] key = None"
| "bucket_find ((k, v) # es) key = (if k = key then Some v else bucket_find es key)"

text \<open>
  The scan of \<^verbatim>\<open>inner_insert\<close>: the first entry with the key gets the new value;
  \<open>None\<close> when the scan ends without a match.
\<close>

fun bucket_assign :: "('k \<times> 'v) list \<Rightarrow> 'k \<Rightarrow> 'v \<Rightarrow> ('k \<times> 'v) list option" where
  "bucket_assign [] key val = None"
| "bucket_assign ((k, v) # es) key val =
     (if k = key then Some ((k, val) # es)
      else (case bucket_assign es key val of
              None \<Rightarrow> None
            | Some es' \<Rightarrow> Some ((k, v) # es')))"

text \<open>
  The scan of \<^verbatim>\<open>remove\<close>: the first entry with the key is erased and its value
  returned; \<open>None\<close> when the scan ends without a match.
\<close>

fun bucket_erase :: "('k \<times> 'v) list \<Rightarrow> 'k \<Rightarrow> ('v \<times> ('k \<times> 'v) list) option" where
  "bucket_erase [] key = None"
| "bucket_erase ((k, v) # es) key =
     (if k = key then Some (v, es)
      else (case bucket_erase es key of
              None \<Rightarrow> None
            | Some (r, es') \<Rightarrow> Some (r, (k, v) # es')))"

definition sc_inner_insert ::
  "('k \<Rightarrow> u64) \<Rightarrow> ('k, 'v) ScHashMap \<Rightarrow> 'k \<Rightarrow> 'v \<Rightarrow> exn + ('k, 'v) ScHashMap" where
  "sc_inner_insert hasher s key val =
     (case sc_get_bucket_index hasher s key of
        Inl e \<Rightarrow> Inl e
      | Inr index \<Rightarrow>
          if length (sc_buckets s) \<le> index then Inl Undefined
          else
            let bucket = sc_buckets s ! index
            in (case bucket_assign bucket key val of
                  Some bucket' \<Rightarrow> Inr (s\<lparr>sc_buckets := (sc_buckets s)[index := bucket']\<rparr>)
                | None \<Rightarrow>
                    Inr (s\<lparr>sc_buckets := (sc_buckets s)[index := bucket @ [(key, val)]],
                           sc_size_count := sc_size_count s + 1\<rparr>)))"

text \<open>
  \<^verbatim>\<open>resize\<close>: the capacity doubles, the buckets are replaced by empty ones, the size
  restarts at 0, and the two nested loops reinsert every entry of every old bucket.
\<close>

definition sc_resize :: "('k \<Rightarrow> u64) \<Rightarrow> ('k, 'v) ScHashMap \<Rightarrow> exn + ('k, 'v) ScHashMap" where
  "sc_resize hasher s =
     (let old_buckets = sc_buckets s;
          s = s\<lparr>sc_capacity := sc_capacity s * 2\<rparr>;
          s = s\<lparr>sc_buckets := replicate (sc_capacity s) []\<rparr>;
          s = s\<lparr>sc_size_count := 0\<rparr>
      in foldE (\<lambda>bucket. foldE (\<lambda>entry s. sc_inner_insert hasher s (fst entry) (snd entry)) bucket)
           old_buckets s)"

definition sc_insert ::
  "('k \<Rightarrow> u64) \<Rightarrow> ('k, 'v) ScHashMap \<Rightarrow> 'k \<Rightarrow> 'v \<Rightarrow> exn + ('k, 'v) ScHashMap" where
  "sc_insert hasher s key val =
     (case (if 4 * (sc_size_count s + 1) > 3 * sc_capacity s then sc_resize hasher s else Inr s) of
        Inl e \<Rightarrow> Inl e
      | Inr s \<Rightarrow> sc_inner_insert hasher s key val)"

definition sc_at :: "('k \<Rightarrow> u64) \<Rightarrow> ('k, 'v) ScHashMap \<Rightarrow> 'k \<Rightarrow> exn + 'v" where
  "sc_at hasher s key =
     (case sc_get_bucket_index hasher s key of
        Inl e \<Rightarrow> Inl e
      | Inr index \<Rightarrow>
          if length (sc_buckets s) \<le> index then Inl Undefined
          else (case bucket_find (sc_buckets s ! index) key of
                  Some v \<Rightarrow> Inr v
                | None \<Rightarrow> Inl KeyNotFound))"

definition sc_contains_key :: "('k \<Rightarrow> u64) \<Rightarrow> ('k, 'v) ScHashMap \<Rightarrow> 'k \<Rightarrow> exn + bool" where
  "sc_contains_key hasher s key =
     (case sc_get_bucket_index hasher s key of
        Inl e \<Rightarrow> Inl e
      | Inr index \<Rightarrow>
          if length (sc_buckets s) \<le> index then Inl Undefined
          else (case bucket_find (sc_buckets s ! index) key of
                  Some v \<Rightarrow> Inr True
                | None \<Rightarrow> Inr False))"

text \<open>\<^verbatim>\<open>remove\<close> returns the map and the optional removed value.\<close>

definition sc_remove ::
  "('k \<Rightarrow> u64) \<Rightarrow> ('k, 'v) ScHashMap \<Rightarrow> 'k \<Rightarrow> exn + (('k, 'v) ScHashMap \<times> 'v option)" where
  "sc_remove hasher s key =
     (case sc_get_bucket_index hasher s key of
        Inl e \<Rightarrow> Inl e
      | Inr index \<Rightarrow>
          if length (sc_buckets s) \<le> index then Inl Undefined
          else (case bucket_erase (sc_buckets s ! index) key of
                  Some (v, bucket') \<Rightarrow>
                    Inr (s\<lparr>sc_buckets := (sc_buckets s)[index := bucket'],
                           sc_size_count := sc_size_count s - 1\<rparr>, Some v)
                | None \<Rightarrow> Inr (s, None)))"

definition sc_size :: "('k, 'v) ScHashMap \<Rightarrow> nat" where
  "sc_size s = sc_size_count s"

definition sc_empty :: "('k, 'v) ScHashMap \<Rightarrow> bool" where
  "sc_empty s = (sc_size_count s = 0)"

definition sc_clear :: "('k, 'v) ScHashMap \<Rightarrow> ('k, 'v) ScHashMap" where
  "sc_clear s = s\<lparr>sc_buckets := map (\<lambda>bucket. []) (sc_buckets s), sc_size_count := 0\<rparr>"

text \<open>\<^verbatim>\<open>load_factor\<close>, as the exact quotient.\<close>

definition sc_load_factor :: "('k, 'v) ScHashMap \<Rightarrow> real" where
  "sc_load_factor s = real (sc_size_count s) / real (sc_capacity s)"

definition sc_bucket_count :: "('k, 'v) ScHashMap \<Rightarrow> nat" where
  "sc_bucket_count s = sc_capacity s"

text \<open>
  \<^verbatim>\<open>operator[]\<close>: the value of the key if the bucket holds it; otherwise
  \<^verbatim>\<open>insert(key, V{})\<close>, the bucket index computed again and the bucket scanned again.
  \<open>dflt\<close> is the value-initialised \<^verbatim>\<open>V{}\<close>. The result is the map and the value the
  returned reference designates.
\<close>

definition sc_index ::
  "('k \<Rightarrow> u64) \<Rightarrow> 'v \<Rightarrow> ('k, 'v) ScHashMap \<Rightarrow> 'k \<Rightarrow> exn + (('k, 'v) ScHashMap \<times> 'v)" where
  "sc_index hasher dflt s key =
     (case sc_get_bucket_index hasher s key of
        Inl e \<Rightarrow> Inl e
      | Inr index \<Rightarrow>
          if length (sc_buckets s) \<le> index then Inl Undefined
          else (case bucket_find (sc_buckets s ! index) key of
                  Some v \<Rightarrow> Inr (s, v)
                | None \<Rightarrow>
                    (case sc_insert hasher s key dflt of
                       Inl e \<Rightarrow> Inl e
                     | Inr s' \<Rightarrow>
                         (case sc_get_bucket_index hasher s' key of
                            Inl e \<Rightarrow> Inl e
                          | Inr new_index \<Rightarrow>
                              if length (sc_buckets s') \<le> new_index then Inl Undefined
                              else (case bucket_find (sc_buckets s' ! new_index) key of
                                      Some v \<Rightarrow> Inr (s', v)
                                    | None \<Rightarrow> Inl InternalError)))))"

section \<open>Probing map (lphashmap.hpp)\<close>

text \<open>
  A slot of the table. The source keeps a key and a value in every slot and a state
  beside them; no operation reads the key or the value of a slot whose state is not
  \<^verbatim>\<open>Occupied\<close>, so only occupied slots carry them here.
\<close>

datatype ('k, 'v) Entry = Empty | Occupied 'k 'v | Deleted

record ('k, 'v) LpHashMap =
  lp_table :: "('k, 'v) Entry list"
  lp_size_count :: nat
  lp_capacity :: nat
  lp_deleted_count :: nat

definition lp_new :: "nat \<Rightarrow> ('k, 'v) LpHashMap" where
  "lp_new initial_capacity =
     \<lparr>lp_table = replicate initial_capacity Empty, lp_size_count = 0,
      lp_capacity = initial_capacity, lp_deleted_count = 0\<rparr>"

definition lp_get_hash :: "('k \<Rightarrow> u64) \<Rightarrow> ('k, 'v) LpHashMap \<Rightarrow> 'k \<Rightarrow> exn + nat" where
  "lp_get_hash hasher s key =
     (if lp_capacity s = 0 then Inl Undefined
      else Inr (unat (hasher key) mod lp_capacity s))"

text \<open>
  The \<^verbatim>\<open>do { ... } while (index != original_index)\<close> loop of
  \<^verbatim>\<open>find_slot_for_insert\<close>, entered at \<open>index\<close>. The source enters it with
  \<open>index = original_index = hash(key) % capacity\<close>, so both are below the capacity;
  an index outside the table is undefined behaviour. Leaving the loop by its condition
  reaches the \<^verbatim>\<open>throw\<close>.
\<close>

function insert_probe ::
  "('k, 'v) Entry list \<Rightarrow> nat \<Rightarrow> 'k \<Rightarrow> nat \<Rightarrow> nat \<Rightarrow> exn + nat" where
  "insert_probe table capacity key original_index index =
     (if index < capacity \<and> original_index < capacity \<and> index < length table then
        (case table ! index of
           Empty \<Rightarrow> Inr index
         | Deleted \<Rightarrow> Inr index
         | Occupied k v \<Rightarrow>
             if k = key then Inr index
             else
               let index' = (index + 1) mod capacity
               in if index' \<noteq> original_index
                  then insert_probe table capacity key original_index index'
                  else Inl TableFull)
      else Inl Undefined)"
  by pat_completeness auto
termination
  by (relation "measure (\<lambda>(table, capacity, key, original_index, index).
        if index < original_index then original_index - index - 1
        else original_index + capacity - index - 1)")
     (auto simp add: mod_Suc split: if_splits)

declare insert_probe.simps [simp del]

text \<open>
  The loop of \<^verbatim>\<open>find_slot_for_lookup\<close>; the result \<open>capacity\<close> stands for "not
  found", as in the source.
\<close>

function lookup_probe ::
  "('k, 'v) Entry list \<Rightarrow> nat \<Rightarrow> 'k \<Rightarrow> nat \<Rightarrow> nat \<Rightarrow> exn + nat" where
  "lookup_probe table capacity key original_index index =
     (if index < capacity \<and> original_index < capacity \<and> index < length table then
        (case table ! index of
           Empty \<Rightarrow> Inr capacity
         | Occupied k v \<Rightarrow>
             if k = key then Inr index
             else
               let index' = (index + 1) mod capacity
               in if index' \<noteq> original_index
                  then lookup_probe table capacity key original_index index'
                  else Inr capacity
         | Deleted \<Rightarrow>
             let index' = (index + 1) mod capacity
             in if index' \<noteq> original_index
                then lookup_probe table capacity key original_index index'
                else Inr capacity)
      else Inl Undefined)"
  by pat_completeness auto
termination
  by (relation "measure (\<lambda>(table, capacity, key, original_index, index).
        if index < original_index then original_index - index - 1
        else original_index + capacity - index - 1)")
     (auto simp add: mod_Suc split: if_splits)

declare lookup_probe.simps [simp del]

definition lp_find_slot_for_insert ::
  "('k \<Rightarrow> u64) \<Rightarrow> ('k, 'v) LpHashMap \<Rightarrow> 'k \<Rightarrow> exn + nat" where
  "lp_find_slot_for_insert hasher s key =
     (case lp_get_hash hasher s key of
        Inl e \<Rightarrow> Inl e
      | Inr index \<Rightarrow> insert_probe (lp_table s) (lp_capacity s) key index index)"

definition lp_find_slot_for_lookup ::
  "('k \<Rightarrow> u64) \<Rightarrow> ('k, 'v) LpHashMap \<Rightarrow> 'k \<Rightarrow> exn + nat" where
  "lp_find_slot_for_lookup hasher s key =
     (case lp_get_hash hasher s key of
        Inl e \<Rightarrow> Inl e
      | Inr index \<Rightarrow> lookup_probe (lp_table s) (lp_capacity s) key index index)"

text \<open>\<^verbatim>\<open>state == Occupied && key == key\<close>\<close>

fun occupied_with :: "('k, 'v) Entry \<Rightarrow> 'k \<Rightarrow> bool" where
  "occupied_with (Occupied k v) key = (k = key)"
| "occupied_with Empty key = False"
| "occupied_with Deleted key = False"

definition lp_inner_insert ::
  "('k \<Rightarrow> u64) \<Rightarrow> ('k, 'v) LpHashMap \<Rightarrow> 'k \<Rightarrow> 'v \<Rightarrow> exn + ('k, 'v) LpHashMap" where
  "lp_inner_insert hasher s key val =
     (case lp_find_slot_for_insert hasher s key of
        Inl e \<Rightarrow> Inl e
      | Inr index \<Rightarrow>
          if occupied_with (lp_table s ! index) key then
            Inr (s\<lparr>lp_table := (lp_table s)[index := Occupied key val]\<rparr>)
          else
            let s = (if lp_table s ! index = Deleted
                     then s\<lparr>lp_deleted_count := lp_deleted_count s - 1\<rparr> else s);
                s = s\<lparr>lp_table := (lp_table s)[index := Occupied key val]\<rparr>
            in Inr (s\<lparr>lp_size_count := lp_size_count s + 1\<rparr>))"

text \<open>
  \<^verbatim>\<open>rehash\<close>: the capacity doubles, the table is replaced by one of empty slots, both
  counters restart at 0, and the occupied entries of the old table are reinserted in
  the order of their slots.
\<close>

definition lp_rehash :: "('k \<Rightarrow> u64) \<Rightarrow> ('k, 'v) LpHashMap \<Rightarrow> exn + ('k, 'v) LpHashMap" where
  "lp_rehash hasher s =
     (let old_table = lp_table s;
          s = s\<lparr>lp_capacity := lp_capacity s * 2\<rparr>;
          s = s\<lparr>lp_table := replicate (lp_capacity s) Empty\<rparr>;
          s = s\<lparr>lp_size_count := 0\<rparr>;
          s = s\<lparr>lp_deleted_count := 0\<rparr>
      in foldE (\<lambda>entry s. case entry of
                   Occupied k v \<Rightarrow> lp_inner_insert hasher s k v
                 | Empty \<Rightarrow> Inr s
                 | Deleted \<Rightarrow> Inr s)
           old_table s)"

text \<open>
  The test of \<^verbatim>\<open>insert\<close>: the prospective load \<open>(size + 1) / capacity\<close> or the
  effective load \<open>(size + deleted) / capacity\<close> above 0.7.
\<close>

definition lp_needs_rehash :: "('k, 'v) LpHashMap \<Rightarrow> bool" where
  "lp_needs_rehash s =
     (10 * (lp_size_count s + 1) > 7 * lp_capacity s \<or>
      10 * (lp_size_count s + lp_deleted_count s) > 7 * lp_capacity s)"

definition lp_insert ::
  "('k \<Rightarrow> u64) \<Rightarrow> ('k, 'v) LpHashMap \<Rightarrow> 'k \<Rightarrow> 'v \<Rightarrow> exn + ('k, 'v) LpHashMap" where
  "lp_insert hasher s key val =
     (case (if lp_needs_rehash s then lp_rehash hasher s else Inr s) of
        Inl e \<Rightarrow> Inl e
      | Inr s \<Rightarrow> lp_inner_insert hasher s key val)"

definition lp_at :: "('k \<Rightarrow> u64) \<Rightarrow> ('k, 'v) LpHashMap \<Rightarrow> 'k \<Rightarrow> exn + 'v" where
  "lp_at hasher s key =
     (case lp_find_slot_for_lookup hasher s key of
        Inl e \<Rightarrow> Inl e
      | Inr index \<Rightarrow>
          if index < lp_capacity s then
            (case lp_table s ! index of
               Occupied k v \<Rightarrow> Inr v
             | Empty \<Rightarrow> Inl Undefined
             | Deleted \<Rightarrow> Inl Undefined)
          else Inl KeyNotFound)"

definition lp_contains_key :: "('k \<Rightarrow> u64) \<Rightarrow> ('k, 'v) LpHashMap \<Rightarrow> 'k \<Rightarrow> exn + bool" where
  "lp_contains_key hasher s key =
     (case lp_find_slot_for_lookup hasher s key of
        Inl e \<Rightarrow> Inl e
      | Inr index \<Rightarrow> Inr (index < lp_capacity s))"

definition lp_remove ::
  "('k \<Rightarrow> u64) \<Rightarrow> ('k, 'v) LpHashMap \<Rightarrow> 'k \<Rightarrow> exn + (('k, 'v) LpHashMap \<times> 'v option)" where
  "lp_remove hasher s key =
     (case lp_find_slot_for_lookup hasher s key of
        Inl e \<Rightarrow> Inl e
      | Inr index \<Rightarrow>
          if index < lp_capacity s then
            (case lp_table s ! index of
               Occupied k v \<Rightarrow>
                 Inr (s\<lparr>lp_table := (lp_table s)[index := Deleted],
                        lp_deleted_count := lp_deleted_count s + 1,
                        lp_size_count := lp_size_count s - 1\<rparr>, Some v)
             | Empty \<Rightarrow> Inl Undefined
             | Deleted \<Rightarrow> Inl Undefined)
          else Inr (s, None))"

definition lp_size :: "('k, 'v) LpHashMap \<Rightarrow> nat" where
  "lp_size s = lp_size_count s"

definition lp_empty :: "('k, 'v) LpHashMap \<Rightarrow> bool" where
  "lp_empty s = (lp_size_count s = 0)"

definition lp_clear :: "('k, 'v) LpHashMap \<Rightarrow> ('k, 'v) LpHashMap" where
  "lp_clear s =
     s\<lparr>lp_table := map (\<lambda>entry. Empty) (lp_table s), lp_size_count := 0, lp_deleted_count := 0\<rparr>"

definition lp_load_factor :: "('k, 'v) LpHashMap \<Rightarrow> real" where
  "lp_load_factor s = real (lp_size_count s) / real (lp_capacity s)"

definition lp_bucket_count :: "('k, 'v) LpHashMap \<Rightarrow> nat" where
  "lp_bucket_count s = lp_capacity s"

text \<open>
  \<^verbatim>\<open>operator[]\<close>: the value at the slot the lookup finds; otherwise
  \<^verbatim>\<open>insert(key, V{})\<close> and a second lookup.
\<close>

definition lp_index ::
  "('k \<Rightarrow> u64) \<Rightarrow> 'v \<Rightarrow> ('k, 'v) LpHashMap \<Rightarrow> 'k \<Rightarrow> exn + (('k, 'v) LpHashMap \<times> 'v)" where
  "lp_index hasher dflt s key =
     (case lp_find_slot_for_lookup hasher s key of
        Inl e \<Rightarrow> Inl e
      | Inr index \<Rightarrow>
          if index < lp_capacity s then
            (case lp_table s ! index of
               Occupied k v \<Rightarrow> Inr (s, v)
             | Empty \<Rightarrow> Inl Undefined
             | Deleted \<Rightarrow> Inl Undefined)
          else
            (case lp_insert hasher s key dflt of
               Inl e \<Rightarrow> Inl e
             | Inr s' \<Rightarrow>
                 (case lp_find_slot_for_lookup hasher s' key of
                    Inl e \<Rightarrow> Inl e
                  | Inr new_index \<Rightarrow>
                      if new_index < lp_capacity s' then
                        (case lp_table s' ! new_index of
                           Occupied k v \<Rightarrow> Inr (s', v)
                         | Empty \<Rightarrow> Inl Undefined
                         | Deleted \<Rightarrow> Inl Undefined)
                      else Inl InternalError)))"

section \<open>Cuckoo map (ckhashmap.hpp)\<close>

text \<open>
  A slot is an optional key/value pair: \<open>None\<close> is \<^verbatim>\<open>occupied == false\<close> (no
  operation reads the key or the value of such a slot).

  The map owns a random number generator; \<^verbatim>\<open>create_hasher\<close> draws two seeds from it
  for a seedable hasher type and default-constructs any other hasher type. The model
  takes the outcome as a parameter: \<open>mk n\<close> is the hash function of the hasher that the
  \<open>n\<close>-th call of \<^verbatim>\<open>create_hasher\<close> on this map returns (numbered from 0), and the
  map records the numbers of its two hashers and how many hashers it has created.
  A hasher type that is not seedable has \<open>mk n\<close> the same for all \<open>n\<close>.
\<close>

record ('k, 'v) CkHashMap =
  ck_table1 :: "('k \<times> 'v) option list"
  ck_table2 :: "('k \<times> 'v) option list"
  ck_hasher1 :: nat
  ck_hasher2 :: nat
  ck_size_count :: nat
  ck_capacity :: nat
  ck_rng :: nat

definition MAX_REHASH_ATTEMPTS :: nat where
  "MAX_REHASH_ATTEMPTS = 8"

definition ck_create_hasher :: "('k, 'v) CkHashMap \<Rightarrow> nat \<times> ('k, 'v) CkHashMap" where
  "ck_create_hasher s = (ck_rng s, s\<lparr>ck_rng := ck_rng s + 1\<rparr>)"

definition ck_new :: "nat \<Rightarrow> ('k, 'v) CkHashMap" where
  "ck_new initial_capacity =
     (let s = \<lparr>ck_table1 = replicate initial_capacity None,
               ck_table2 = replicate initial_capacity None,
               ck_hasher1 = 0, ck_hasher2 = 0, ck_size_count = 0,
               ck_capacity = initial_capacity, ck_rng = 0\<rparr>;
          (h1, s) = ck_create_hasher s;
          s = s\<lparr>ck_hasher1 := h1\<rparr>;
          (h2, s) = ck_create_hasher s
      in s\<lparr>ck_hasher2 := h2\<rparr>)"

definition ck_get_hash1 :: "(nat \<Rightarrow> 'k \<Rightarrow> u64) \<Rightarrow> ('k, 'v) CkHashMap \<Rightarrow> 'k \<Rightarrow> exn + nat" where
  "ck_get_hash1 mk s key =
     (if ck_capacity s = 0 then Inl Undefined
      else Inr (unat (mk (ck_hasher1 s) key) mod ck_capacity s))"

definition ck_get_hash2 :: "(nat \<Rightarrow> 'k \<Rightarrow> u64) \<Rightarrow> ('k, 'v) CkHashMap \<Rightarrow> 'k \<Rightarrow> exn + nat" where
  "ck_get_hash2 mk s key =
     (if ck_capacity s = 0 then Inl Undefined
      else Inr (unat (mk (ck_hasher2 s) key) mod ck_capacity s))"

text \<open>\<^verbatim>\<open>entry.occupied && entry.key == key\<close>\<close>

fun holds_key :: "('k \<times> 'v) option \<Rightarrow> 'k \<Rightarrow> bool" where
  "holds_key None key = False"
| "holds_key (Some (k, v)) key = (k = key)"

text \<open>
  The eviction loop of \<^verbatim>\<open>inner_insert\<close>, \<^verbatim>\<open>for (i = 0; i < capacity; ++i)\<close>, with
  \<open>n\<close> the number of iterations that remain, \<open>current_entry\<close> the entry in hand and
  \<open>use_table1\<close> the table of this iteration. When the iterations are used up the
  function returns \<open>False\<close> and the entry in hand is not stored anywhere.
\<close>

fun eviction_walk ::
  "(nat \<Rightarrow> 'k \<Rightarrow> u64) \<Rightarrow> ('k, 'v) CkHashMap \<Rightarrow> nat \<Rightarrow> ('k \<times> 'v) \<Rightarrow> bool
   \<Rightarrow> exn + (bool \<times> ('k, 'v) CkHashMap)" where
  "eviction_walk mk s 0 current_entry use_table1 = Inr (False, s)"
| "eviction_walk mk s (Suc n) current_entry use_table1 =
     (if use_table1 then
        (case ck_get_hash1 mk s (fst current_entry) of
           Inl e \<Rightarrow> Inl e
         | Inr pos1 \<Rightarrow>
             if length (ck_table1 s) \<le> pos1 then Inl Undefined
             else (case ck_table1 s ! pos1 of
                     None \<Rightarrow>
                       Inr (True, s\<lparr>ck_table1 := (ck_table1 s)[pos1 := Some current_entry],
                                     ck_size_count := ck_size_count s + 1\<rparr>)
                   | Some occupant \<Rightarrow>
                       eviction_walk mk
                         (s\<lparr>ck_table1 := (ck_table1 s)[pos1 := Some current_entry]\<rparr>)
                         n occupant False))
      else
        (case ck_get_hash2 mk s (fst current_entry) of
           Inl e \<Rightarrow> Inl e
         | Inr pos2 \<Rightarrow>
             if length (ck_table2 s) \<le> pos2 then Inl Undefined
             else (case ck_table2 s ! pos2 of
                     None \<Rightarrow>
                       Inr (True, s\<lparr>ck_table2 := (ck_table2 s)[pos2 := Some current_entry],
                                     ck_size_count := ck_size_count s + 1\<rparr>)
                   | Some occupant \<Rightarrow>
                       eviction_walk mk
                         (s\<lparr>ck_table2 := (ck_table2 s)[pos2 := Some current_entry]\<rparr>)
                         n occupant True)))"

definition ck_inner_insert ::
  "(nat \<Rightarrow> 'k \<Rightarrow> u64) \<Rightarrow> ('k, 'v) CkHashMap \<Rightarrow> 'k \<Rightarrow> 'v
   \<Rightarrow> exn + (bool \<times> ('k, 'v) CkHashMap)" where
  "ck_inner_insert mk s key val =
     (case ck_get_hash1 mk s key of
        Inl e \<Rightarrow> Inl e
      | Inr pos1 \<Rightarrow>
     (case ck_get_hash2 mk s key of
        Inl e \<Rightarrow> Inl e
      | Inr pos2 \<Rightarrow>
          if length (ck_table1 s) \<le> pos1 \<or> length (ck_table2 s) \<le> pos2 then Inl Undefined
          else if holds_key (ck_table1 s ! pos1) key then
            Inr (True, s\<lparr>ck_table1 := (ck_table1 s)[pos1 := Some (key, val)]\<rparr>)
          else if holds_key (ck_table2 s ! pos2) key then
            Inr (True, s\<lparr>ck_table2 := (ck_table2 s)[pos2 := Some (key, val)]\<rparr>)
          else if ck_table1 s ! pos1 = None then
            Inr (True, s\<lparr>ck_table1 := (ck_table1 s)[pos1 := Some (key, val)],
                          ck_size_count := ck_size_count s + 1\<rparr>)
          else if ck_table2 s ! pos2 = None then
            Inr (True, s\<lparr>ck_table2 := (ck_table2 s)[pos2 := Some (key, val)],
                          ck_size_count := ck_size_count s + 1\<rparr>)
          else eviction_walk mk s (ck_capacity s) (key, val) True))"

text \<open>
  The body of the two loops of \<^verbatim>\<open>rehash\<close>: an occupied entry is reinserted and the
  boolean that \<^verbatim>\<open>inner_insert\<close> returns is not looked at.
\<close>

definition ck_reinsert ::
  "(nat \<Rightarrow> 'k \<Rightarrow> u64) \<Rightarrow> ('k \<times> 'v) option \<Rightarrow> ('k, 'v) CkHashMap \<Rightarrow> exn + ('k, 'v) CkHashMap" where
  "ck_reinsert mk entry s =
     (case entry of
        None \<Rightarrow> Inr s
      | Some (k, v) \<Rightarrow>
          (case ck_inner_insert mk s k v of
             Inl e \<Rightarrow> Inl e
           | Inr (ok, s') \<Rightarrow> Inr s'))"

definition ck_rehash ::
  "(nat \<Rightarrow> 'k \<Rightarrow> u64) \<Rightarrow> ('k, 'v) CkHashMap \<Rightarrow> exn + ('k, 'v) CkHashMap" where
  "ck_rehash mk s =
     (let old_table1 = ck_table1 s;
          old_table2 = ck_table2 s;
          s = s\<lparr>ck_capacity := ck_capacity s * 2\<rparr>;
          s = s\<lparr>ck_table1 := replicate (ck_capacity s) None\<rparr>;
          s = s\<lparr>ck_table2 := replicate (ck_capacity s) None\<rparr>;
          s = s\<lparr>ck_size_count := 0\<rparr>;
          (h1, s) = ck_create_hasher s;
          s = s\<lparr>ck_hasher1 := h1\<rparr>;
          (h2, s) = ck_create_hasher s;
          s = s\<lparr>ck_hasher2 := h2\<rparr>
      in (case foldE (ck_reinsert mk) old_table1 s of
            Inl e \<Rightarrow> Inl e
          | Inr s \<Rightarrow> foldE (ck_reinsert mk) old_table2 s))"

text \<open>
  The loop of \<^verbatim>\<open>insert\<close>,
  \<^verbatim>\<open>while (!inner_insert(K(key), V(value)) && attempts < MAX_REHASH_ATTEMPTS) { rehash(); ++attempts; }\<close>,
  entered with the given number of attempts; it returns the map and the number of
  attempts when the loop is left. \<^verbatim>\<open>inner_insert\<close> is called before the bound is
  tested, at every evaluation of the condition.
\<close>

function ck_insert_loop ::
  "(nat \<Rightarrow> 'k \<Rightarrow> u64) \<Rightarrow> ('k, 'v) CkHashMap \<Rightarrow> 'k \<Rightarrow> 'v \<Rightarrow> nat
   \<Rightarrow> exn + (('k, 'v) CkHashMap \<times> nat)" where
  "ck_insert_loop mk s key val attempts =
     (case ck_inner_insert mk s key val of
        Inl e \<Rightarrow> Inl e
      | Inr (ok, s') \<Rightarrow>
          if \<not> ok \<and> attempts < MAX_REHASH_ATTEMPTS then
            (case ck_rehash mk s' of
               Inl e \<Rightarrow> Inl e
             | Inr s'' \<Rightarrow> ck_insert_loop mk s'' key val (attempts + 1))
          else Inr (s', attempts))"
  by pat_completeness auto
termination
  by (relation "measure (\<lambda>(mk, s, key, val, attempts). MAX_REHASH_ATTEMPTS - attempts)") auto

declare ck_insert_loop.simps [simp del]

definition ck_insert ::
  "(nat \<Rightarrow> 'k \<Rightarrow> u64) \<Rightarrow> ('k, 'v) CkHashMap \<Rightarrow> 'k \<Rightarrow> 'v \<Rightarrow> exn + ('k, 'v) CkHashMap" where
  "ck_insert mk s key val =
     (case (if 2 * (ck_size_count s + 1) > ck_capacity s then ck_rehash mk s else Inr s) of
        Inl e \<Rightarrow> Inl e
      | Inr s \<Rightarrow>
          (case ck_insert_loop mk s key val 0 of
             Inl e \<Rightarrow> Inl e
           | Inr (s', attempts) \<Rightarrow>
               if attempts \<ge> MAX_REHASH_ATTEMPTS then Inl CapacityExhausted
               else Inr s'))"

text \<open>
  The two probes that \<^verbatim>\<open>at\<close>, \<^verbatim>\<open>contains_key\<close>, \<^verbatim>\<open>remove\<close> and \<^verbatim>\<open>operator[]\<close>
  make at given positions: the value in table 1 at \<open>pos1\<close> if that slot holds the
  key, else the value in table 2 at \<open>pos2\<close> if that slot holds the key.
\<close>

definition ck_probe ::
  "('k, 'v) CkHashMap \<Rightarrow> nat \<Rightarrow> nat \<Rightarrow> 'k \<Rightarrow> exn + 'v option" where
  "ck_probe s pos1 pos2 key =
     (if length (ck_table1 s) \<le> pos1 then Inl Undefined
      else if holds_key (ck_table1 s ! pos1) key then
        Inr (map_option snd (ck_table1 s ! pos1))
      else if length (ck_table2 s) \<le> pos2 then Inl Undefined
      else if holds_key (ck_table2 s ! pos2) key then
        Inr (map_option snd (ck_table2 s ! pos2))
      else Inr None)"

definition ck_at :: "(nat \<Rightarrow> 'k \<Rightarrow> u64) \<Rightarrow> ('k, 'v) CkHashMap \<Rightarrow> 'k \<Rightarrow> exn + 'v" where
  "ck_at mk s key =
     (case ck_get_hash1 mk s key of
        Inl e \<Rightarrow> Inl e
      | Inr pos1 \<Rightarrow>
     (case ck_get_hash2 mk s key of
        Inl e \<Rightarrow> Inl e
      | Inr pos2 \<Rightarrow>
          (case ck_probe s pos1 pos2 key of
             Inl e \<Rightarrow> Inl e
           | Inr (Some v) \<Rightarrow> Inr v
           | Inr None \<Rightarrow> Inl KeyNotFound)))"

definition ck_contains_key ::
  "(nat \<Rightarrow> 'k \<Rightarrow> u64) \<Rightarrow> ('k, 'v) CkHashMap \<Rightarrow> 'k \<Rightarrow> exn + bool" where
  "ck_contains_key mk s key =
     (case ck_get_hash1 mk s key of
        Inl e \<Rightarrow> Inl e
      | Inr pos1 \<Rightarrow>
     (case ck_get_hash2 mk s key of
        Inl e \<Rightarrow> Inl e
      | Inr pos2 \<Rightarrow>
          (case ck_probe s pos1 pos2 key of
             Inl e \<Rightarrow> Inl e
           | Inr (Some v) \<Rightarrow> Inr True
           | Inr None \<Rightarrow> Inr False)))"

definition ck_remove ::
  "(nat \<Rightarrow> 'k \<Rightarrow> u64) \<Rightarrow> ('k, 'v) CkHashMap \<Rightarrow> 'k
   \<Rightarrow> exn + (('k, 'v) CkHashMap \<times> 'v option)" where
  "ck_remove mk s key =
     (case ck_get_hash1 mk s key of
        Inl e \<Rightarrow> Inl e
      | Inr pos1 \<Rightarrow>
     (case ck_get_hash2 mk s key of
        Inl e \<Rightarrow> Inl e
      | Inr pos2 \<Rightarrow>
          if length (ck_table1 s) \<le> pos1 \<or> length (ck_table2 s) \<le> pos2 then Inl Undefined
          else if holds_key (ck_table1 s ! pos1) key then
            Inr (s\<lparr>ck_table1 := (ck_table1 s)[pos1 := None],
                   ck_size_count := ck_size_count s - 1\<rparr>,
                 map_option snd (ck_table1 s ! pos1))
          else if holds_key (ck_table2 s ! pos2) key then
            Inr (s\<lparr>ck_table2 := (ck_table2 s)[pos2 := None],
                   ck_size_count := ck_size_count s - 1\<rparr>,
                 map_option snd (ck_table2 s ! pos2))
          else Inr (s, None)))"

definition ck_size :: "('k, 'v) CkHashMap \<Rightarrow> nat" where
  "ck_size s = ck_size_count s"

definition ck_empty :: "('k, 'v) CkHashMap \<Rightarrow> bool" where
  "ck_empty s = (ck_size_count s = 0)"

definition ck_clear :: "('k, 'v) CkHashMap \<Rightarrow> ('k, 'v) CkHashMap" where
  "ck_clear s =
     s\<lparr>ck_table1 := map (\<lambda>entry. None) (ck_table1 s),
       ck_table2 := map (\<lambda>entry. None) (ck_table2 s),
       ck_size_count := 0\<rparr>"

definition ck_load_factor :: "('k, 'v) CkHashMap \<Rightarrow> real" where
  "ck_load_factor s = real (ck_size_count s) / real (ck_capacity s)"

definition ck_bucket_count :: "('k, 'v) CkHashMap \<Rightarrow> nat" where
  "ck_bucket_count s = ck_capacity s * 2"

text \<open>
  \<^verbatim>\<open>operator[]\<close>: \<open>pos1\<close> and \<open>pos2\<close> are computed once, before the insertion, and
  the search after \<^verbatim>\<open>insert(key, V{})\<close> looks at the same two positions again.
\<close>

definition ck_index ::
  "(nat \<Rightarrow> 'k \<Rightarrow> u64) \<Rightarrow> 'v \<Rightarrow> ('k, 'v) CkHashMap \<Rightarrow> 'k
   \<Rightarrow> exn + (('k, 'v) CkHashMap \<times> 'v)" where
  "ck_index mk dflt s key =
     (case ck_get_hash1 mk s key of
        Inl e \<Rightarrow> Inl e
      | Inr pos1 \<Rightarrow>
     (case ck_get_hash2 mk s key of
        Inl e \<Rightarrow> Inl e
      | Inr pos2 \<Rightarrow>
          (case ck_probe s pos1 pos2 key of
             Inl e \<Rightarrow> Inl e
           | Inr (Some v) \<Rightarrow> Inr (s, v)
           | Inr None \<Rightarrow>
               (case ck_insert mk s key dflt of
                  Inl e \<Rightarrow> Inl e
                | Inr s' \<Rightarrow>
                    (case ck_probe s' pos1 pos2 key of
                       Inl e \<Rightarrow> Inl e
                     | Inr (Some v) \<Rightarrow> Inr (s', v)
                     | Inr None \<Rightarrow> Inl InternalError)))))"

section \<open>Sequences of public operations\<close>

text \<open>
  The public operations that change a map: \<^verbatim>\<open>insert\<close>, \<^verbatim>\<open>remove\<close>, \<^verbatim>\<open>clear\<close> and
  \<^verbatim>\<open>operator[]\<close>. (\<^verbatim>\<open>at\<close>, \<^verbatim>\<open>contains_key\<close>, \<^verbatim>\<open>size\<close>, \<^verbatim>\<open>empty\<close>,
  \<^verbatim>\<open>load_factor\<close> and \<^verbatim>\<open>bucket_count\<close> leave the map as it is.) An operation applied to
  a map gives the map after it, or the failure; a sequence of operations stops at the
  first failure.
\<close>

datatype ('k, 'v) map_op = OpInsert 'k 'v | OpRemove 'k | OpClear | OpIndex 'k

definition sc_apply ::
  "('k \<Rightarrow> u64) \<Rightarrow> 'v \<Rightarrow> ('k, 'v) map_op \<Rightarrow> ('k, 'v) ScHashMap \<Rightarrow> exn + ('k, 'v) ScHashMap" where
  "sc_apply hasher dflt op s =
     (case op of
        OpInsert key val \<Rightarrow> sc_insert hasher s key val
      | OpRemove key \<Rightarrow>
          (case sc_remove hasher s key of Inl e \<Rightarrow> Inl e | Inr (s', r) \<Rightarrow> Inr s')
      | OpClear \<Rightarrow> Inr (sc_clear s)
      | OpIndex key \<Rightarrow>
          (case sc_index hasher dflt s key of Inl e \<Rightarrow> Inl e | Inr (s', v) \<Rightarrow> Inr s'))"

definition sc_run ::
  "('k \<Rightarrow> u64) \<Rightarrow> 'v \<Rightarrow> ('k, 'v) map_op list \<Rightarrow> ('k, 'v) ScHashMap \<Rightarrow> exn + ('k, 'v) ScHashMap" where
  "sc_run hasher dflt ops s = foldE (sc_apply hasher dflt) ops s"

definition lp_apply ::
  "('k \<Rightarrow> u64) \<Rightarrow> 'v \<Rightarrow> ('k, 'v) map_op \<Rightarrow> ('k, 'v) LpHashMap \<Rightarrow> exn + ('k, 'v) LpHashMap" where
  "lp_apply hasher dflt op s =
     (case op of
        OpInsert key val \<Rightarrow> lp_insert hasher s key val
      | OpRemove key \<Rightarrow>
          (case lp_remove hasher s key of Inl e \<Rightarrow> Inl e | Inr (s', r) \<Rightarrow> Inr s')
      | OpClear \<Rightarrow> Inr (lp_clear s)
      | OpIndex key \<Rightarrow>
          (case lp_index hasher dflt s key of Inl e \<Rightarrow> Inl e | Inr (s', v) \<Rightarrow> Inr s'))"

definition lp_run ::
  "('k \<Rightarrow> u64) \<Rightarrow> 'v \<Rightarrow> ('k, 'v) map_op list \<Rightarrow> ('k, 'v) LpHashMap \<Rightarrow> exn + ('k, 'v) LpHashMap" where
  "lp_run hasher dflt ops s = foldE (lp_apply hasher dflt) ops s"

definition ck_apply ::
  "(nat \<Rightarrow> 'k \<Rightarrow> u64) \<Rightarrow> 'v \<Rightarrow> ('k, 'v) map_op \<Rightarrow> ('k, 'v) CkHashMap \<Rightarrow> exn + ('k, 'v) CkHashMap" where
  "ck_apply mk dflt op s =
     (case op of
        OpInsert key val \<Rightarrow> ck_insert mk s key val
      | OpRemove key \<Rightarrow>
          (case ck_remove mk s key of Inl e \<Rightarrow> Inl e | Inr (s', r) \<Rightarrow> Inr s')
      | OpClear \<Rightarrow> Inr (ck_clear s)
      | OpIndex key \<Rightarrow>
          (case ck_index mk dflt s key of Inl e \<Rightarrow> Inl e | Inr (s', v) \<Rightarrow> Inr s'))"

definition ck_run ::
  "(nat \<Rightarrow> 'k \<Rightarrow> u64) \<Rightarrow> 'v \<Rightarrow> ('k, 'v) map_op list \<Rightarrow> ('k, 'v) CkHashMap \<Rightarrow> exn + ('k, 'v) CkHashMap" where
  "ck_run mk dflt ops s = foldE (ck_apply mk dflt) ops s"

text \<open>\<^verbatim>\<open>INITIAL_CAPACITY\<close>, the default argument of the three constructors.\<close>

definition INITIAL_CAPACITY :: nat where
  "INITIAL_CAPACITY = 16"

text \<open>
  The states of a map: what the constructor gives for the initial capacity \<open>c\<close>, and
  what a public operation that returns normally gives from such a state.
\<close>

inductive sc_reachable :: "('k \<Rightarrow> u64) \<Rightarrow> 'v \<Rightarrow> nat \<Rightarrow> ('k, 'v) ScHashMap \<Rightarrow> bool"
  for hasher :: "'k \<Rightarrow> u64" and dflt :: 'v and c :: nat where
  sc_reach_new: "sc_reachable hasher dflt c (sc_new c)"
| sc_reach_step:
    "sc_reachable hasher dflt c s \<Longrightarrow> sc_apply hasher dflt op s = Inr s'
     \<Longrightarrow> sc_reachable hasher dflt c s'"

inductive lp_reachable :: "('k \<Rightarrow> u64) \<Rightarrow> 'v \<Rightarrow> nat \<Rightarrow> ('k, 'v) LpHashMap \<Rightarrow> bool"
  for hasher :: "'k \<Rightarrow> u64" and dflt :: 'v and c :: nat where
  lp_reach_new: "lp_reachable hasher dflt c (lp_new c)"
| lp_reach_step:
    "lp_reachable hasher dflt c s \<Longrightarrow> lp_apply hasher dflt op s = Inr s'
     \<Longrightarrow> lp_reachable hasher dflt c s'"

inductive ck_reachable ::
  "(nat \<Rightarrow> 'k \<Rightarrow> u64) \<Rightarrow> 'v \<Rightarrow> nat \<Rightarrow> ('k, 'v) CkHashMap \<Rightarrow> bool"
  for mk :: "nat \<Rightarrow> 'k \<Rightarrow> u64" and dflt :: 'v and c :: nat where
  ck_reach_new: "ck_reachable mk dflt c (ck_new c)"
| ck_reach_step:
    "ck_reachable mk dflt c s \<Longrightarrow> ck_apply mk dflt op s = Inr s'
     \<Longrightarrow> ck_reachable mk dflt c s'"

section \<open>A hasher for the worked examples\<close>

text \<open>
  The hasher type is a template parameter of the maps. \<open>key_hasher\<close> is the hash
  function of a hasher whose \<^verbatim>\<open>hash\<close> returns the 64-bit key itself; it has no seeds,
  so a cuckoo map default-constructs it at every \<^verbatim>\<open>create_hasher\<close>.
\<close>

definition key_hasher :: "u64 \<Rightarrow> u64" where
  "key_hasher key = key"

definition key_hashers :: "nat \<Rightarrow> u64 \<Rightarrow> u64" where
  "key_hashers n = key_hasher"

section \<open>Calls that throw\<close>

text \<open>
  A call of a public member function returns, or throws and leaves the map as it is at
  the \<^verbatim>\<open>throw\<close> (the caller can catch the exception and go on using the map), or has
  undefined behaviour (an index outside a vector, a remainder by 0), after which
  nothing is known about the map. The functions above give the failure without the
  map; the functions of this section give the map as well. The exceptions are those
  of the \<^verbatim>\<open>throw\<close> statements of the three headers; exceptions of the key and
  value types, of the hasher and of allocation are not modelled.
\<close>

datatype 's outcome = Returns 's | Throws exn 's | Undefined_behaviour

text \<open>
  The public member functions, \<^verbatim>\<open>at\<close> included: it is the one \<^verbatim>\<open>const\<close> member
  that throws. (\<^verbatim>\<open>contains_key\<close>, \<^verbatim>\<open>size\<close>, \<^verbatim>\<open>empty\<close>, \<^verbatim>\<open>load_factor\<close> and
  \<^verbatim>\<open>bucket_count\<close> are \<^verbatim>\<open>const\<close> and have no \<^verbatim>\<open>throw\<close>.)
\<close>

datatype ('k, 'v) call = CallInsert 'k 'v | CallRemove 'k | CallClear | CallIndex 'k | CallAt 'k

subsection \<open>Chaining map\<close>

text \<open>
  \<^verbatim>\<open>insert\<close> and \<^verbatim>\<open>remove\<close> of \<^verbatim>\<open>ScHashMap\<close> contain no \<^verbatim>\<open>throw\<close>: the only
  failure of their models is undefined behaviour.
\<close>

definition sc_insert_call ::
  "('k \<Rightarrow> u64) \<Rightarrow> ('k, 'v) ScHashMap \<Rightarrow> 'k \<Rightarrow> 'v \<Rightarrow> ('k, 'v) ScHashMap outcome" where
  "sc_insert_call hasher s key val =
     (case sc_insert hasher s key val of
        Inl e \<Rightarrow> Undefined_behaviour
      | Inr s' \<Rightarrow> Returns s')"

definition sc_remove_call ::
  "('k \<Rightarrow> u64) \<Rightarrow> ('k, 'v) ScHashMap \<Rightarrow> 'k \<Rightarrow> ('k, 'v) ScHashMap outcome" where
  "sc_remove_call hasher s key =
     (case sc_remove hasher s key of
        Inl e \<Rightarrow> Undefined_behaviour
      | Inr (s', r) \<Rightarrow> Returns s')"

text \<open>
  \<^verbatim>\<open>at\<close> is \<^verbatim>\<open>const\<close>: it leaves the map as it is, whether it returns or throws
  \<^verbatim>\<open>std::out_of_range\<close>.
\<close>

definition sc_at_call ::
  "('k \<Rightarrow> u64) \<Rightarrow> ('k, 'v) ScHashMap \<Rightarrow> 'k \<Rightarrow> ('k, 'v) ScHashMap outcome" where
  "sc_at_call hasher s key =
     (case sc_at hasher s key of
        Inl e \<Rightarrow> if e = KeyNotFound then Throws KeyNotFound s else Undefined_behaviour
      | Inr v \<Rightarrow> Returns s)"

text \<open>
  \<^verbatim>\<open>operator[]\<close> throws after \<^verbatim>\<open>insert(key, V{})\<close> has returned, when the second
  search does not find the key: the map is as the insert left it.
\<close>

definition sc_index_call ::
  "('k \<Rightarrow> u64) \<Rightarrow> 'v \<Rightarrow> ('k, 'v) ScHashMap \<Rightarrow> 'k \<Rightarrow> ('k, 'v) ScHashMap outcome" where
  "sc_index_call hasher dflt s key =
     (case sc_get_bucket_index hasher s key of
        Inl e \<Rightarrow> Undefined_behaviour
      | Inr index \<Rightarrow>
          if length (sc_buckets s) \<le> index then Undefined_behaviour
          else (case bucket_find (sc_buckets s ! index) key of
                  Some v \<Rightarrow> Returns s
                | None \<Rightarrow>
                    (case sc_insert_call hasher s key dflt of
                       Undefined_behaviour \<Rightarrow> Undefined_behaviour
                     | Throws e s' \<Rightarrow> Throws e s'
                     | Returns s' \<Rightarrow>
                         (case sc_get_bucket_index hasher s' key of
                            Inl e \<Rightarrow> Undefined_behaviour
                          | Inr new_index \<Rightarrow>
                              if length (sc_buckets s') \<le> new_index then Undefined_behaviour
                              else (case bucket_find (sc_buckets s' ! new_index) key of
                                      Some v \<Rightarrow> Returns s'
                                    | None \<Rightarrow> Throws InternalError s')))))"

definition sc_call ::
  "('k \<Rightarrow> u64) \<Rightarrow> 'v \<Rightarrow> ('k, 'v) call \<Rightarrow> ('k, 'v) ScHashMap \<Rightarrow> ('k, 'v) ScHashMap outcome" where
  "sc_call hasher dflt cl s =
     (case cl of
        CallInsert key val \<Rightarrow> sc_insert_call hasher s key val
      | CallRemove key \<Rightarrow> sc_remove_call hasher s key
      | CallClear \<Rightarrow> Returns (sc_clear s)
      | CallIndex key \<Rightarrow> sc_index_call hasher dflt s key
      | CallAt key \<Rightarrow> sc_at_call hasher s key)"

text \<open>
  The states in which a caller can find a map: what the constructor gives for the
  initial capacity \<open>c\<close>, and what a call leaves from such a state, whether it returns
  or throws.
\<close>

inductive sc_observable :: "('k \<Rightarrow> u64) \<Rightarrow> 'v \<Rightarrow> nat \<Rightarrow> ('k, 'v) ScHashMap \<Rightarrow> bool"
  for hasher :: "'k \<Rightarrow> u64" and dflt :: 'v and c :: nat where
  sc_obs_new: "sc_observable hasher dflt c (sc_new c)"
| sc_obs_returns:
    "sc_observable hasher dflt c s \<Longrightarrow> sc_call hasher dflt cl s = Returns s'
     \<Longrightarrow> sc_observable hasher dflt c s'"
| sc_obs_throws:
    "sc_observable hasher dflt c s \<Longrightarrow> sc_call hasher dflt cl s = Throws e s'
     \<Longrightarrow> sc_observable hasher dflt c s'"

subsection \<open>Probing map\<close>

text \<open>
  \<^verbatim>\<open>inner_insert\<close> of \<^verbatim>\<open>LpHashMap\<close> throws in \<^verbatim>\<open>find_slot_for_insert\<close> ("Hash
  table is full"), its first statement, before it has changed the map.
\<close>

definition lp_inner_insert_call ::
  "('k \<Rightarrow> u64) \<Rightarrow> ('k, 'v) LpHashMap \<Rightarrow> 'k \<Rightarrow> 'v \<Rightarrow> ('k, 'v) LpHashMap outcome" where
  "lp_inner_insert_call hasher s key val =
     (case lp_inner_insert hasher s key val of
        Inl e \<Rightarrow> if e = TableFull then Throws TableFull s else Undefined_behaviour
      | Inr s' \<Rightarrow> Returns s')"

text \<open>
  The loop of \<^verbatim>\<open>rehash\<close> over the old table: an \<^verbatim>\<open>inner_insert\<close> that throws ends
  it, and the map holds the entries reinserted so far.
\<close>

fun lp_reinsert_call ::
  "('k \<Rightarrow> u64) \<Rightarrow> ('k, 'v) Entry list \<Rightarrow> ('k, 'v) LpHashMap \<Rightarrow> ('k, 'v) LpHashMap outcome" where
  "lp_reinsert_call hasher [] s = Returns s"
| "lp_reinsert_call hasher (entry # rest) s =
     (case entry of
        Occupied k v \<Rightarrow>
          (case lp_inner_insert_call hasher s k v of
             Returns s' \<Rightarrow> lp_reinsert_call hasher rest s'
           | Throws e s' \<Rightarrow> Throws e s'
           | Undefined_behaviour \<Rightarrow> Undefined_behaviour)
      | Empty \<Rightarrow> lp_reinsert_call hasher rest s
      | Deleted \<Rightarrow> lp_reinsert_call hasher rest s)"

definition lp_rehash_call ::
  "('k \<Rightarrow> u64) \<Rightarrow> ('k, 'v) LpHashMap \<Rightarrow> ('k, 'v) LpHashMap outcome" where
  "lp_rehash_call hasher s =
     (let old_table = lp_table s;
          s = s\<lparr>lp_capacity := lp_capacity s * 2\<rparr>;
          s = s\<lparr>lp_table := replicate (lp_capacity s) Empty\<rparr>;
          s = s\<lparr>lp_size_count := 0\<rparr>;
          s = s\<lparr>lp_deleted_count := 0\<rparr>
      in lp_reinsert_call hasher old_table s)"

definition lp_insert_call ::
  "('k \<Rightarrow> u64) \<Rightarrow> ('k, 'v) LpHashMap \<Rightarrow> 'k \<Rightarrow> 'v \<Rightarrow> ('k, 'v) LpHashMap outcome" where
  "lp_insert_call hasher s key val =
     (case (if lp_needs_rehash s then lp_rehash_call hasher s else Returns s) of
        Returns s \<Rightarrow> lp_inner_insert_call hasher s key val
      | Throws e s \<Rightarrow> Throws e s
      | Undefined_behaviour \<Rightarrow> Undefined_behaviour)"

text \<open>\<^verbatim>\<open>remove\<close> contains no \<^verbatim>\<open>throw\<close>; \<^verbatim>\<open>at\<close> is \<^verbatim>\<open>const\<close>.\<close>

definition lp_remove_call ::
  "('k \<Rightarrow> u64) \<Rightarrow> ('k, 'v) LpHashMap \<Rightarrow> 'k \<Rightarrow> ('k, 'v) LpHashMap outcome" where
  "lp_remove_call hasher s key =
     (case lp_remove hasher s key of
        Inl e \<Rightarrow> Undefined_behaviour
      | Inr (s', r) \<Rightarrow> Returns s')"

definition lp_at_call ::
  "('k \<Rightarrow> u64) \<Rightarrow> ('k, 'v) LpHashMap \<Rightarrow> 'k \<Rightarrow> ('k, 'v) LpHashMap outcome" where
  "lp_at_call hasher s key =
     (case lp_at hasher s key of
        Inl e \<Rightarrow> if e = KeyNotFound then Throws KeyNotFound s else Undefined_behaviour
      | Inr v \<Rightarrow> Returns s)"

text \<open>
  \<^verbatim>\<open>operator[]\<close>: a throw of \<^verbatim>\<open>insert(key, V{})\<close> passes through; its own throw
  comes after the insert has returned.
\<close>

definition lp_index_call ::
  "('k \<Rightarrow> u64) \<Rightarrow> 'v \<Rightarrow> ('k, 'v) LpHashMap \<Rightarrow> 'k \<Rightarrow> ('k, 'v) LpHashMap outcome" where
  "lp_index_call hasher dflt s key =
     (case lp_find_slot_for_lookup hasher s key of
        Inl e \<Rightarrow> Undefined_behaviour
      | Inr index \<Rightarrow>
          if index < lp_capacity s then
            (case lp_table s ! index of
               Occupied k v \<Rightarrow> Returns s
             | Empty \<Rightarrow> Undefined_behaviour
             | Deleted \<Rightarrow> Undefined_behaviour)
          else
            (case lp_insert_call hasher s key dflt of
               Undefined_behaviour \<Rightarrow> Undefined_behaviour
             | Throws e s' \<Rightarrow> Throws e s'
             | Returns s' \<Rightarrow>
                 (case lp_find_slot_for_lookup hasher s' key of
                    Inl e \<Rightarrow> Undefined_behaviour
                  | Inr new_index \<Rightarrow>
                      if new_index < lp_capacity s' then
                        (case lp_table s' ! new_index of
                           Occupied k v \<Rightarrow> Returns s'
                         | Empty \<Rightarrow> Undefined_behaviour
                         | Deleted \<Rightarrow> Undefined_behaviour)
                      else Throws InternalError s')))"

definition lp_call ::
  "('k \<Rightarrow> u64) \<Rightarrow> 'v \<Rightarrow> ('k, 'v) call \<Rightarrow> ('k, 'v) LpHashMap \<Rightarrow> ('k, 'v) LpHashMap outcome" where
  "lp_call hasher dflt cl s =
     (case cl of
        CallInsert key val \<Rightarrow> lp_insert_call hasher s key val
      | CallRemove key \<Rightarrow> lp_remove_call hasher s key
      | CallClear \<Rightarrow> Returns (lp_clear s)
      | CallIndex key \<Rightarrow> lp_index_call hasher dflt s key
      | CallAt key \<Rightarrow> lp_at_call hasher s key)"

inductive lp_observable :: "('k \<Rightarrow> u64) \<Rightarrow> 'v \<Rightarrow> nat \<Rightarrow> ('k, 'v) LpHashMap \<Rightarrow> bool"
  for hasher :: "'k \<Rightarrow> u64" and dflt :: 'v and c :: nat where
  lp_obs_new: "lp_observable hasher dflt c (lp_new c)"
| lp_obs_returns:
    "lp_observable hasher dflt c s \<Longrightarrow> lp_call hasher dflt cl s = Returns s'
     \<Longrightarrow> lp_observable hasher dflt c s'"
| lp_obs_throws:
    "lp_observable hasher dflt c s \<Longrightarrow> lp_call hasher dflt cl s = Throws e s'
     \<Longrightarrow> lp_observable hasher dflt c s'"

subsection \<open>Cuckoo map\<close>

text \<open>
  \<^verbatim>\<open>insert\<close> of \<^verbatim>\<open>CkHashMap\<close> throws after its loop, when the attempts have
  reached the bound: the map is as the loop left it, rehashed eight times.
  \<^verbatim>\<open>rehash\<close> and \<^verbatim>\<open>inner_insert\<close> contain no \<^verbatim>\<open>throw\<close>.
\<close>

definition ck_insert_call ::
  "(nat \<Rightarrow> 'k \<Rightarrow> u64) \<Rightarrow> ('k, 'v) CkHashMap \<Rightarrow> 'k \<Rightarrow> 'v \<Rightarrow> ('k, 'v) CkHashMap outcome" where
  "ck_insert_call mk s key val =
     (case (if 2 * (ck_size_count s + 1) > ck_capacity s then ck_rehash mk s else Inr s) of
        Inl e \<Rightarrow> Undefined_behaviour
      | Inr s \<Rightarrow>
          (case ck_insert_loop mk s key val 0 of
             Inl e \<Rightarrow> Undefined_behaviour
           | Inr (s', attempts) \<Rightarrow>
               if attempts \<ge> MAX_REHASH_ATTEMPTS then Throws CapacityExhausted s'
               else Returns s'))"

definition ck_remove_call ::
  "(nat \<Rightarrow> 'k \<Rightarrow> u64) \<Rightarrow> ('k, 'v) CkHashMap \<Rightarrow> 'k \<Rightarrow> ('k, 'v) CkHashMap outcome" where
  "ck_remove_call mk s key =
     (case ck_remove mk s key of
        Inl e \<Rightarrow> Undefined_behaviour
      | Inr (s', r) \<Rightarrow> Returns s')"

definition ck_at_call ::
  "(nat \<Rightarrow> 'k \<Rightarrow> u64) \<Rightarrow> ('k, 'v) CkHashMap \<Rightarrow> 'k \<Rightarrow> ('k, 'v) CkHashMap outcome" where
  "ck_at_call mk s key =
     (case ck_at mk s key of
        Inl e \<Rightarrow> if e = KeyNotFound then Throws KeyNotFound s else Undefined_behaviour
      | Inr v \<Rightarrow> Returns s)"

definition ck_index_call ::
  "(nat \<Rightarrow> 'k \<Rightarrow> u64) \<Rightarrow> 'v \<Rightarrow> ('k, 'v) CkHashMap \<Rightarrow> 'k \<Rightarrow> ('k, 'v) CkHashMap outcome" where
  "ck_index_call mk dflt s key =
     (case ck_get_hash1 mk s key of
        Inl e \<Rightarrow> Undefined_behaviour
      | Inr pos1 \<Rightarrow>
     (case ck_get_hash2 mk s key of
        Inl e \<Rightarrow> Undefined_behaviour
      | Inr pos2 \<Rightarrow>
          (case ck_probe s pos1 pos2 key of
             Inl e \<Rightarrow> Undefined_behaviour
           | Inr (Some v) \<Rightarrow> Returns s
           | Inr None \<Rightarrow>
               (case ck_insert_call mk s key dflt of
                  Undefined_behaviour \<Rightarrow> Undefined_behaviour
                | Throws e s' \<Rightarrow> Throws e s'
                | Returns s' \<Rightarrow>
                    (case ck_probe s' pos1 pos2 key of
                       Inl e \<Rightarrow> Undefined_behaviour
                     | Inr (Some v) \<Rightarrow> Returns s'
                     | Inr None \<Rightarrow> Throws InternalError s')))))"

definition ck_call ::
  "(nat \<Rightarrow> 'k \<Rightarrow> u64) \<Rightarrow> 'v \<Rightarrow> ('k, 'v) call \<Rightarrow> ('k, 'v) CkHashMap \<Rightarrow> ('k, 'v) CkHashMap outcome" where
  "ck_call mk dflt cl s =
     (case cl of
        CallInsert key val \<Rightarrow> ck_insert_call mk s key val
      | CallRemove key \<Rightarrow> ck_remove_call mk s key
      | CallClear \<Rightarrow> Returns (ck_clear s)
      | CallIndex key \<Rightarrow> ck_index_call mk dflt s key
      | CallAt key \<Rightarrow> ck_at_call mk s key)"

inductive ck_observable ::
  "(nat \<Rightarrow> 'k \<Rightarrow> u64) \<Rightarrow> 'v \<Rightarrow> nat \<Rightarrow> ('k, 'v) CkHashMap \<Rightarrow> bool"
  for mk :: "nat \<Rightarrow> 'k \<Rightarrow> u64" and dflt :: 'v and c :: nat where
  ck_obs_new: "ck_observable mk dflt c (ck_new c)"
| ck_obs_returns:
    "ck_observable mk dflt c s \<Longrightarrow> ck_call mk dflt cl s = Returns s'
     \<Longrightarrow> ck_observable mk dflt c s'"
| ck_obs_throws:
    "ck_observable mk dflt c s \<Longrightarrow> ck_call mk dflt cl s = Throws e s'
     \<Longrightarrow> ck_observable mk dflt c s'"

section \<open>States of the worked examples\<close>

text \<open>
  A probing map with the default capacity after \<^verbatim>\<open>insert(0, 10)\<close>, \<^verbatim>\<open>insert(16, 20)\<close>,
  \<^verbatim>\<open>remove(0)\<close> and \<^verbatim>\<open>insert(16, 30)\<close> under \<open>key_hasher\<close>: both keys start probing
  at slot 0.
\<close>

definition lp_twice :: "(u64, nat) LpHashMap" where
  "lp_twice =
     \<lparr>lp_table = (replicate 16 Empty)[0 := Occupied 16 30, 1 := Occupied 16 20],
      lp_size_count = 2, lp_capacity = 16, lp_deleted_count = 0\<rparr>"

text \<open>The same map after nine more keys, and what \<^verbatim>\<open>rehash\<close> makes of it.\<close>

definition lp_loaded :: "(u64, nat) LpHashMap" where
  "lp_loaded =
     \<lparr>lp_table =
        [Occupied 16 30, Occupied 16 20, Occupied 1 1, Occupied 2 2, Occupied 3 3,
         Occupied 4 4, Occupied 5 5, Occupied 6 6, Occupied 7 7, Occupied 8 8,
         Occupied 9 9, Empty, Empty, Empty, Empty, Empty],
      lp_size_count = 11, lp_capacity = 16, lp_deleted_count = 0\<rparr>"

definition lp_rehashed :: "(u64, nat) LpHashMap" where
  "lp_rehashed =
     \<lparr>lp_table =
        (replicate 32 Empty)
          [1 := Occupied 1 1, 2 := Occupied 2 2, 3 := Occupied 3 3, 4 := Occupied 4 4,
           5 := Occupied 5 5, 6 := Occupied 6 6, 7 := Occupied 7 7, 8 := Occupied 8 8,
           9 := Occupied 9 9, 16 := Occupied 16 20],
      lp_size_count = 10, lp_capacity = 32, lp_deleted_count = 0\<rparr>"

text \<open>
  A cuckoo map with the default capacity after \<^verbatim>\<open>insert(0, 10)\<close> and
  \<^verbatim>\<open>insert(16, 20)\<close> under \<open>key_hashers\<close>, and after \<^verbatim>\<open>insert(32, 30)\<close> as well.
\<close>

definition ck_pair :: "(u64, nat) CkHashMap" where
  "ck_pair =
     \<lparr>ck_table1 = (replicate 16 None)[0 := Some (0, 10)],
      ck_table2 = (replicate 16 None)[0 := Some (16, 20)],
      ck_hasher1 = 0, ck_hasher2 = 1, ck_size_count = 2, ck_capacity = 16, ck_rng = 2\<rparr>"

definition ck_pair_after :: "(u64, nat) CkHashMap" where
  "ck_pair_after =
     \<lparr>ck_table1 = (replicate 32 None)[0 := Some (32, 30), 16 := Some (16, 20)],
      ck_table2 = replicate 32 None,
      ck_hasher1 = 2, ck_hasher2 = 3, ck_size_count = 2, ck_capacity = 32, ck_rng = 4\<rparr>"

text \<open>
  A cuckoo map with the default capacity holding the keys 0 to 7, and the same map
  after \<^verbatim>\<open>insert(24, 0)\<close>.
\<close>

definition ck_eight :: "(u64, nat) CkHashMap" where
  "ck_eight =
     \<lparr>ck_table1 =
        [Some (0, 1), Some (1, 1), Some (2, 1), Some (3, 1), Some (4, 1), Some (5, 1),
         Some (6, 1), Some (7, 1), None, None, None, None, None, None, None, None],
      ck_table2 = replicate 16 None,
      ck_hasher1 = 0, ck_hasher2 = 1, ck_size_count = 8, ck_capacity = 16, ck_rng = 2\<rparr>"

definition ck_nine :: "(u64, nat) CkHashMap" where
  "ck_nine =
     \<lparr>ck_table1 =
        (replicate 32 None)
          [0 := Some (0, 1), 1 := Some (1, 1), 2 := Some (2, 1), 3 := Some (3, 1),
           4 := Some (4, 1), 5 := Some (5, 1), 6 := Some (6, 1), 7 := Some (7, 1),
           24 := Some (24, 0)],
      ck_table2 = replicate 32 None,
      ck_hasher1 = 2, ck_hasher2 = 3, ck_size_count = 9, ck_capacity = 32, ck_rng = 4\<rparr>"

text \<open>
  A chaining map with the default capacity after \<^verbatim>\<open>insert(0, 10)\<close> and
  \<^verbatim>\<open>insert(16, 20)\<close> under \<open>key_hasher\<close>.
\<close>

definition sc_pair :: "(u64, nat) ScHashMap" where
  "sc_pair =
     \<lparr>sc_buckets = (replicate 16 [])[0 := [(0, 10), (16, 20)]],
      sc_size_count = 2, sc_capacity = 16\<rparr>"

text \<open>
  A probing map with the default capacity after \<^verbatim>\<open>insert(0, 10)\<close>, \<^verbatim>\<open>insert(16, 20)\<close>,
  \<^verbatim>\<open>insert(32, 30)\<close> and \<^verbatim>\<open>remove(0)\<close> under \<open>key_hasher\<close>: the three keys start
  probing at slot 0, and slot 0 is a tombstone.
\<close>

definition lp_chain :: "(u64, nat) LpHashMap" where
  "lp_chain =
     \<lparr>lp_table = (replicate 16 Empty)[0 := Deleted, 1 := Occupied 16 20, 2 := Occupied 32 30],
      lp_size_count = 2, lp_capacity = 16, lp_deleted_count = 1\<rparr>"

definition lp_chain_removed :: "(u64, nat) LpHashMap" where
  "lp_chain_removed =
     \<lparr>lp_table = (replicate 16 Empty)[0 := Deleted, 1 := Deleted, 2 := Occupied 32 30],
      lp_size_count = 1, lp_capacity = 16, lp_deleted_count = 2\<rparr>"

text \<open>
  A probing map constructed with capacity 2 after \<^verbatim>\<open>insert(0, 10)\<close>,
  \<^verbatim>\<open>remove(0)\<close>, \<^verbatim>\<open>insert(1, 20)\<close>: a tombstone and an entry, no empty slot.
\<close>

definition lp_small :: "(u64, nat) LpHashMap" where
  "lp_small =
     \<lparr>lp_table = [Deleted, Occupied 1 20],
      lp_size_count = 1, lp_capacity = 2, lp_deleted_count = 1\<rparr>"

section \<open>Invariants of the maps\<close>

text \<open>
  What every state of a chaining map satisfies: one bucket per unit of capacity, and
  the size counts the entries of all buckets.
\<close>

definition sc_inv :: "('k, 'v) ScHashMap \<Rightarrow> bool" where
  "sc_inv s \<longleftrightarrow>
     length (sc_buckets s) = sc_capacity s \<and>
     sc_size_count s = sum_list (map length (sc_buckets s))"

text \<open>
  What every state of a probing map satisfies: one slot per unit of capacity, the size
  counts the occupied slots and the tombstone counter counts the deleted slots.
\<close>

fun is_occupied :: "('k, 'v) Entry \<Rightarrow> bool" where
  "is_occupied (Occupied k v) = True"
| "is_occupied Empty = False"
| "is_occupied Deleted = False"

definition lp_inv :: "('k, 'v) LpHashMap \<Rightarrow> bool" where
  "lp_inv s \<longleftrightarrow>
     length (lp_table s) = lp_capacity s \<and>
     lp_size_count s = length (filter is_occupied (lp_table s)) \<and>
     lp_deleted_count s = length (filter (\<lambda>e. e = Deleted) (lp_table s))"

text \<open>
  What every state of a cuckoo map satisfies: both tables have one slot per unit of
  capacity, the size counts the occupied slots of both, and every entry sits at the
  position that the hasher of its table gives for its key.
\<close>

definition ck_placed :: "('k \<Rightarrow> u64) \<Rightarrow> nat \<Rightarrow> ('k \<times> 'v) option list \<Rightarrow> bool" where
  "ck_placed h capacity table \<longleftrightarrow>
     (\<forall>i < length table. \<forall>k v. table ! i = Some (k, v) \<longrightarrow> unat (h k) mod capacity = i)"

definition ck_inv :: "(nat \<Rightarrow> 'k \<Rightarrow> u64) \<Rightarrow> ('k, 'v) CkHashMap \<Rightarrow> bool" where
  "ck_inv mk s \<longleftrightarrow>
     length (ck_table1 s) = ck_capacity s \<and>
     length (ck_table2 s) = ck_capacity s \<and>
     ck_size_count s =
       length (filter (\<lambda>e. e \<noteq> None) (ck_table1 s)) + length (filter (\<lambda>e. e \<noteq> None) (ck_table2 s)) \<and>
     ck_placed (mk (ck_hasher1 s)) (ck_capacity s) (ck_table1 s) \<and>
     ck_placed (mk (ck_hasher2 s)) (ck_capacity s) (ck_table2 s)"

text \<open>What an operation leaves unchanged: the capacity and the hashers.\<close>

definition ck_same_shape :: "('k, 'v) CkHashMap \<Rightarrow> ('k, 'v) CkHashMap \<Rightarrow> bool" where
  "ck_same_shape s s' \<longleftrightarrow>
     ck_capacity s' = ck_capacity s \<and> ck_hasher1 s' = ck_hasher1 s \<and>
     ck_hasher2 s' = ck_hasher2 s \<and> ck_rng s' = ck_rng s"


text \<open>
  During an insertion of \<open>key\<close> with \<open>val\<close>: the key occurs exactly once among the
  entry in hand and the two slots that a lookup of the key inspects, and that
  occurrence carries \<open>val\<close>.
\<close>

definition ck_once ::
  "(nat \<Rightarrow> 'k \<Rightarrow> u64) \<Rightarrow> ('k, 'v) CkHashMap \<Rightarrow> ('k \<times> 'v) option \<Rightarrow> 'k \<Rightarrow> 'v \<Rightarrow> bool" where
  "ck_once mk s hand key val \<longleftrightarrow>
     (let a = ck_table1 s ! (unat (mk (ck_hasher1 s) key) mod ck_capacity s);
          b = ck_table2 s ! (unat (mk (ck_hasher2 s) key) mod ck_capacity s)
      in (hand = Some (key, val) \<and> \<not> holds_key a key \<and> \<not> holds_key b key) \<or>
         (\<not> holds_key hand key \<and> a = Some (key, val) \<and> \<not> holds_key b key) \<or>
         (\<not> holds_key hand key \<and> \<not> holds_key a key \<and> b = Some (key, val)))"

text \<open>
  The slot that a probe for \<open>key\<close> inspects after \<open>i\<close> steps: the probes start at
  \<open>hash(key) mod capacity\<close> and advance by one, wrapping at the capacity.
\<close>

definition lp_probe_slot ::
  "('k \<Rightarrow> u64) \<Rightarrow> ('k, 'v) LpHashMap \<Rightarrow> 'k \<Rightarrow> nat \<Rightarrow> ('k, 'v) Entry" where
  "lp_probe_slot hasher s key i =
     lp_table s ! ((unat (hasher key) mod lp_capacity s + i) mod lp_capacity s)"

text \<open>
  The probe for \<open>key\<close> passes its \<open>i\<close>-th slot: the slot is a tombstone or holds
  another key.
\<close>

definition lp_passes :: "('k \<Rightarrow> u64) \<Rightarrow> ('k, 'v) LpHashMap \<Rightarrow> 'k \<Rightarrow> nat \<Rightarrow> bool" where
  "lp_passes hasher s key i =
     (case lp_probe_slot hasher s key i of
        Empty \<Rightarrow> False
      | Occupied k v \<Rightarrow> k \<noteq> key
      | Deleted \<Rightarrow> True)"
section \<open>Proofs: the keyed hash function\<close>

lemma rotl_word_rotl:
  assumes "0 < b" "b < 64"
  shows "rotl x b = word_rotl b x"
proof (rule bit_word_eqI)
  fix n assume "n < LENGTH(64)"
  then have n: "n < 64" by simp
  have L: "bit (rotl x b) n \<longleftrightarrow> (b \<le> n \<and> bit x (n - b)) \<or> bit x (64 - b + n)"
    using n by (simp add: rotl_def bit_or_iff bit_push_bit_iff bit_drop_bit_eq)
  have R: "bit (word_rotl b x) n \<longleftrightarrow> bit x ((n + (64 - b)) mod 64)"
    using n assms by (simp add: bit_word_rotl_iff)
  show "bit (rotl x b) n \<longleftrightarrow> bit (word_rotl b x) n"
  proof (cases "b \<le> n")
    case True
    with n assms have m: "(n + (64 - b)) mod 64 = n - b" by (simp add: mod_if)
    from True n assms have "\<not> 64 - b + n < 64" by simp
    then have "\<not> bit x (64 - b + n)"
      using bit_imp_le_length [of x "64 - b + n"] by auto
    with True show ?thesis unfolding L R m by simp
  next
    case False
    with n assms have m: "(n + (64 - b)) mod 64 = 64 - b + n" by simp
    from False show ?thesis unfolding L R m by simp
  qed
qed

lemma sipround_spec_sipround: "sipround s = spec_sipround s"
proof -
  have r: "rotl x 13 = word_rotl 13 x" "rotl x 16 = word_rotl 16 x" "rotl x 17 = word_rotl 17 x"
    "rotl x 21 = word_rotl 21 x" "rotl x 32 = word_rotl 32 x" for x
    by (simp_all add: rotl_word_rotl)
  show ?thesis
    unfolding sipround_def spec_sipround_def r
    by (simp add: Let_def split: prod.splits)
qed

lemma upt8: "[0..<8] = [0, 1, 2, 3, 4, 5, 6, 7]"
  by code_simp

lemma len8_obtain:
  assumes "8 \<le> length xs"
  obtains a b c d e f g h rest where "xs = a # b # c # d # e # f # g # h # rest"
proof -
  from assms obtain a x1 where 1: "xs = a # x1" "7 \<le> length x1" by (cases xs) auto
  then obtain b x2 where 2: "x1 = b # x2" "6 \<le> length x2" by (cases x1) auto
  then obtain c x3 where 3: "x2 = c # x3" "5 \<le> length x3" by (cases x2) auto
  then obtain d x4 where 4: "x3 = d # x4" "4 \<le> length x4" by (cases x3) auto
  then obtain e x5 where 5: "x4 = e # x5" "3 \<le> length x5" by (cases x4) auto
  then obtain f x6 where 6: "x5 = f # x6" "2 \<le> length x6" by (cases x5) auto
  then obtain g x7 where 7: "x6 = g # x7" "1 \<le> length x7" by (cases x6) auto
  then obtain h x8 where 8: "x7 = h # x8" by (cases x7) auto
  show ?thesis using that 1 2 3 4 5 6 7 8 by simp
qed

lemma read_m_le64:
  assumes "p + 8 \<le> length data"
  shows "read_m data p = le64 (take 8 (drop p data))"
proof -
  have "8 \<le> length (drop p data)" using assms by simp
  then obtain a b c d e f g h rest where
    dr: "drop p data = a # b # c # d # e # f # g # h # rest"
    by (rule len8_obtain)
  have nth: "\<And>i. data ! (p + i) = (drop p data) ! i"
    using assms by simp
  have "read_m data p =
      fold (\<lambda>i m. m OR push_bit (i * 8) (ucast ((drop p data) ! i))) [0..<8] 0"
    unfolding read_m_def by (rule arg_cong [where f = "\<lambda>f. fold f [0..<8] 0"], rule ext, rule ext) (simp add: nth)
  also have "\<dots> = le64 (take 8 (drop p data))"
    unfolding dr upt8
    by (simp add: push_bit_or push_bit_push_bit ac_simps)
  finally show ?thesis .
qed


lemma full_words_take:
  "full_words (take (length bs - length bs mod 8) bs) = full_words bs"
proof (induction bs rule: full_words.induct)
  case (1 bs)
  show ?case
  proof (cases "8 \<le> length bs")
    case True
    let ?n = "length bs"
    have n8: "8 \<le> ?n - ?n mod 8" using True
      by (metis (no_types, lifting) dvd_imp_le dvd_minus_mod mod_less_eq_dividend diff_is_0_eq' le_antisym mod_less_divisor not_less zero_less_numeral less_le_trans linorder_not_le zero_less_diff)
    have m: "(?n - 8) - (?n - 8) mod 8 = ?n - ?n mod 8 - 8" using True
      by (metis (no_types, lifting) diff_commute le_mod_geq)
    have "full_words (take (?n - ?n mod 8) bs)
        = take 8 (take (?n - ?n mod 8) bs) # full_words (drop 8 (take (?n - ?n mod 8) bs))"
      using n8 True by (subst full_words.simps) simp
    also have "take 8 (take (?n - ?n mod 8) bs) = take 8 bs" using n8 by (simp add: min_def)
    also have "drop 8 (take (?n - ?n mod 8) bs) = take (?n - ?n mod 8 - 8) (drop 8 bs)"
      by (simp add: drop_take)
    also have "full_words (take (?n - ?n mod 8 - 8) (drop 8 bs)) = full_words (drop 8 bs)"
      using "1.IH" [OF True] m by simp
    finally show ?thesis using True by (subst (2) full_words.simps) simp
  next
    case False
    then show ?thesis by (simp add: full_words.simps)
  qed
qed

lemma chunks_loop_foldl:
  assumes "chunks_end \<le> length data" "p \<le> chunks_end" "8 dvd (chunks_end - p)"
  shows "chunks_loop data chunks_end p s
       = foldl absorb s (map le64 (full_words (take (chunks_end - p) (drop p data))))"
  using assms
proof (induction data chunks_end p s rule: chunks_loop.induct)
  case (1 data chunks_end p s)
  obtain v0 v1 v2 v3 where s: "s = (v0, v1, v2, v3)" by (cases s) auto
  show ?case
  proof (cases "p < chunks_end")
    case False
    with "1.prems" have "chunks_end - p = 0" by simp
    then show ?thesis using False
      by (subst chunks_loop.simps) (simp add: full_words.simps)
  next
    case True
    then have ge: "8 \<le> chunks_end - p" using "1.prems"(3) by (auto dest: dvd_imp_le)
    have p8: "p + 8 \<le> length data" using ge "1.prems" by simp
    let ?m = "read_m data p"
    obtain w0 w1 w2 w3 where sr: "sipround (v0, v1, v2, v3 XOR ?m) = (w0, w1, w2, w3)"
      by (cases "sipround (v0, v1, v2, v3 XOR ?m)") auto
    have dv: "8 dvd (chunks_end - (p + 8))" using "1.prems"(3) ge
      by (metis diff_diff_left dvd_diff_nat dvd_refl)
    have IH: "chunks_loop data chunks_end (p + 8) (w0 XOR ?m, w1, w2, w3)
        = foldl absorb (w0 XOR ?m, w1, w2, w3)
            (map le64 (full_words (take (chunks_end - (p + 8)) (drop (p + 8) data))))"
    proof (rule "1.IH")
      show "p < chunks_end" by (rule True)
      show "(v0, v1, v2, v3) = s" by (simp add: s)
      show "(v1, v2, v3) = (v1, v2, v3)" "(v2, v3) = (v2, v3)" by (rule refl)+
      show "?m = read_m data p" by (rule refl)
      show "v3 XOR ?m = v3 XOR ?m" by (rule refl)
      show "(w0, w1, w2, w3) = sipround (v0, v1, v2, v3 XOR ?m)" by (simp add: sr)
      show "(w1, w2, w3) = (w1, w2, w3)" "(w2, w3) = (w2, w3)" by (rule refl)+
      show "chunks_end \<le> length data" by (rule "1.prems"(1))
      show "p + 8 \<le> chunks_end" using ge True by simp
      show "8 dvd chunks_end - (p + 8)" by (rule dv)
    qed
    have fw: "full_words (take (chunks_end - p) (drop p data))
        = take 8 (drop p data) # full_words (take (chunks_end - (p + 8)) (drop (p + 8) data))"
    proof -
      have l8: "8 \<le> length (take (chunks_end - p) (drop p data))"
        using ge "1.prems" by simp
      have t: "take 8 (take (chunks_end - p) (drop p data)) = take 8 (drop p data)"
        using ge by (simp add: min_def)
      have d: "drop 8 (take (chunks_end - p) (drop p data))
             = take (chunks_end - (p + 8)) (drop (p + 8) data)"
        by (simp add: drop_take add.commute)
      show ?thesis
        by (subst full_words.simps) (simp only: l8 t d if_True)
    qed
    have ab: "absorb (v0, v1, v2, v3) (le64 (take 8 (drop p data))) = (w0 XOR ?m, w1, w2, w3)"
      using sr by (simp add: absorb_def read_m_le64 [OF p8] sipround_spec_sipround)
    show ?thesis
      using True by (subst chunks_loop.simps) (simp add: s sr IH fw ab Let_def)
  qed
qed


lemma len_top_byte:
  "push_bit 56 (of_nat n :: u64) = push_bit 56 (of_nat (n mod 256))"
proof (rule bit_word_eqI)
  fix k assume "k < LENGTH(64)"
  have "n mod 256 = take_bit 8 n" by (simp add: take_bit_eq_mod)
  then show "bit (push_bit 56 (of_nat n :: u64)) k = bit (push_bit 56 (of_nat (n mod 256) :: u64)) k"
    using \<open>k < LENGTH(64)\<close>
    by (auto simp add: bit_push_bit_iff bit_of_nat_iff bit_take_bit_iff)
qed

lemma tail_switch_explicit:
  assumes "length xs = r" "r < 8"
  shows "tail_switch xs 0 r b = b OR le64 xs"
proof -
  have r: "r = 0 \<or> r = 1 \<or> r = 2 \<or> r = 3 \<or> r = 4 \<or> r = 5 \<or> r = 6 \<or> r = 7"
    using assms(2) by arith
  show ?thesis
    using assms(1) r
    by (elim disjE)
       (auto simp add: tail_switch_def length_Suc_conv numeral_eq_Suc push_bit_or
          push_bit_push_bit ac_simps Let_def)
qed

lemma tail_switch_drop:
  assumes "tail_start \<le> length data"
  shows "tail_switch data tail_start r b = tail_switch (drop tail_start data) 0 r b"
  using assms by (simp add: tail_switch_def)

lemma tail_switch_le64:
  assumes "tail_start + r = length data" "r < 8"
  shows "tail_switch data tail_start r b = b OR le64 (drop tail_start data)"
proof -
  have "tail_start \<le> length data" using assms by simp
  then have "tail_switch data tail_start r b = tail_switch (drop tail_start data) 0 r b"
    by (rule tail_switch_drop)
  also have "\<dots> = b OR le64 (drop tail_start data)"
    using assms by (intro tail_switch_explicit) simp_all
  finally show ?thesis .
qed


lemma sipround_1:
  "sipround (8388350548712186997, 7737605742629119589, 7746018054687388513, 8893317812261383291)
   = (7522283016919026821, 4743485663676245980, 17580161316416526130, 6796766745078561810)"
  by (simp add: sipround_def rotl_def)

lemma sipround_2:
  "sipround (7522283016919026821, 4743485663676245980, 17580161316416526285, 6796766745078561810)
   = (8435928009599455533, 595096470697675662, 4012795480175444765, 1965391113473045418)"
  by (simp add: sipround_def rotl_def)

lemma sipround_3:
  "sipround (8435928009599455533, 595096470697675662, 4012795480175444765, 1965391113473045418)
   = (14137589816859447915, 6123073733060223894, 15272291802983249426, 10203986039714026765)"
  by (simp add: sipround_def rotl_def)

lemma sipround_4:
  "sipround (14137589816859447915, 6123073733060223894, 15272291802983249426, 10203986039714026765)
   = (16526895119020465323, 13634299727700071458, 12103643615459116781, 6068976758387690168)"
  by (simp add: sipround_def rotl_def)

lemma sipround_5:
  "sipround (8388350548712186997, 7163387959820316269, 7167314332889348969, 8893317812261383291)
   = (10981029938553519189, 4392448308863800335, 362652417736656450, 12489333196764188097)"
  by (simp add: sipround_def rotl_def)

lemma sipround_6:
  "sipround (10981029938553519189, 4392448308863800335, 362652417736656573, 12489333196764188097)
   = (4577203900005419568, 13056015402569900502, 6035329792112507604, 17739571854549289661)"
  by (simp add: sipround_def rotl_def)

lemma sipround_7:
  "sipround (4577203900005419568, 13056015402569900502, 6035329792112507604, 17739571854549289661)
   = (13834089384167832389, 12079290008415681391, 9208524443488410390, 16207255808902797001)"
  by (simp add: sipround_def rotl_def)

lemma sipround_8:
  "sipround (13834089384167832389, 12079290008415681391, 9208524443488410390, 16207255808902797001)
   = (1647573812033774199, 15035622404084624306, 10438838296465218957, 9839142345148849555)"
  by (simp add: sipround_def rotl_def)

lemma chunks_loop_empty: "chunks_loop [] 0 0 s = s"
  by (simp add: chunks_loop.simps)

lemma tail_switch_empty: "tail_switch [] 0 0 b = b"
  by (simp add: tail_switch_def)

lemma Sip13Hasher_hash_empty:
  "Sip13Hasher_hash DEFAULT_K0 DEFAULT_K1 [] = 0xabac0158050fc4dc"
  by (simp add: Sip13Hasher_hash_def DEFAULT_K0_def DEFAULT_K1_def chunks_loop_empty
        tail_switch_empty sipround_1 sipround_2 sipround_3 sipround_4)

lemma sip13_spec_empty:
  "sip13_spec DEFAULT_K0 DEFAULT_K1 [] = 0xde218a87a24849db"
  by (simp add: sip13_spec_def sip13_from_def absorb_def padding_word_def full_words.simps
        DEFAULT_K0_def DEFAULT_K1_def sipround_spec_sipround [symmetric]
        sipround_5 sipround_6 sipround_7 sipround_8)

text \<open>
  Claim C4 as stated, with the initial state of section 4.2 of the specification (the
  first two constants XORed with \<open>seed0\<close>, the last two with \<open>seed1\<close>). On the empty
  byte sequence under the default seeds \<^verbatim>\<open>Sip13Hasher::hash\<close> returns
  \<open>0xabac0158050fc4dc\<close>, the published SipHash-1-3 value for the key
  \<open>00 01 ... 0f\<close>, and the description returns another value.
\<close>

theorem Sip13Hasher_hash_seed_pairing:
  "Sip13Hasher_hash DEFAULT_K0 DEFAULT_K1 [] = 0xabac0158050fc4dc
   \<and> sip13_spec DEFAULT_K0 DEFAULT_K1 [] = 0xde218a87a24849db
   \<and> Sip13Hasher_hash DEFAULT_K0 DEFAULT_K1 [] \<noteq> sip13_spec DEFAULT_K0 DEFAULT_K1 []"
  by (simp add: Sip13Hasher_hash_empty sip13_spec_empty)

text \<open>
  Claim C4, amended. \<^verbatim>\<open>Sip13Hasher::hash\<close> computes SipHash-1-3 of the byte view
  under the seeds \<open>(k0, k1)\<close> with the seeds alternating over the four constants
  (\<open>k0\<close> with the first and third, \<open>k1\<close> with the second and fourth): the loop over the
  8-byte chunks, the fall-through switch that builds the padding word, the finalisation
  and the round of the source give, on every byte sequence and every pair of seeds, the
  value of the description (\<open>sip13_alternating\<close>: full little-endian words absorbed one
  round each, a padding word with the trailing bytes and the length modulo 256 in the
  top byte, \<open>0xff\<close> into the third word, three rounds, XOR of the four words; the round
  \<open>spec_sipround\<close> with the rotations 13, 32, 16, 21, 17, 32).
\<close>

theorem Sip13Hasher_hash_is_siphash13:
  "Sip13Hasher_hash k0 k1 data = sip13_alternating k0 k1 data"
proof -
  let ?len = "length data"
  let ?ce = "?len - ?len mod 8"
  let ?init = "(0x736f6d6570736575 XOR k0, 0x646f72616e646f6d XOR k1,
                0x6c7967656e657261 XOR k0, 0x7465646279746573 XOR k1) :: sipstate"
  have loop: "chunks_loop data ?ce 0 ?init = foldl absorb ?init (map le64 (full_words data))"
  proof -
    have "8 dvd (?ce - 0)" by (simp add: dvd_minus_mod)
    then have "chunks_loop data ?ce 0 ?init
        = foldl absorb ?init (map le64 (full_words (take (?ce - 0) (drop 0 data))))"
      by (intro chunks_loop_foldl) simp_all
    then show ?thesis by (simp add: full_words_take)
  qed
  have tail: "tail_switch data ?ce (?len mod 8) (push_bit 56 (of_nat ?len)) = padding_word data"
  proof -
    have "?ce + ?len mod 8 = ?len" by simp
    then have "tail_switch data ?ce (?len mod 8) (push_bit 56 (of_nat ?len))
        = push_bit 56 (of_nat ?len) OR le64 (drop ?ce data)"
      by (intro tail_switch_le64) simp_all
    then show ?thesis
      by (simp add: padding_word_def len_top_byte [of ?len] or.commute)
  qed
  obtain a0 a1 a2 a3 where A: "foldl absorb ?init (map le64 (full_words data)) = (a0, a1, a2, a3)"
    by (cases "foldl absorb ?init (map le64 (full_words data))") auto
  obtain b0 b1 b2 b3 where B: "spec_sipround (a0, a1, a2, a3 XOR padding_word data) = (b0, b1, b2, b3)"
    by (cases "spec_sipround (a0, a1, a2, a3 XOR padding_word data)") auto
  show ?thesis
    unfolding Sip13Hasher_hash_def sip13_alternating_def sip13_from_def Let_def loop tail A
      sipround_spec_sipround
    by (simp add: absorb_def B)
qed

section \<open>Proofs: where the code departs from the specification\<close>

text \<open>
  Claim C1 (keys are unique across the occupied entries), at the probing map.
  \<^verbatim>\<open>find_slot_for_insert\<close> returns the first slot that is not occupied, so an insert of
  a key that is stored behind a tombstone writes a second entry for it. With the
  default capacity and a hasher that returns the key: \<^verbatim>\<open>insert(0, 10)\<close>,
  \<^verbatim>\<open>insert(16, 20)\<close>, \<^verbatim>\<open>remove(0)\<close>, \<^verbatim>\<open>insert(16, 30)\<close> leave two occupied entries with
  the key 16, in slots 0 and 1, and a size of 2.
\<close>

theorem lp_insert_duplicates_key:
  "lp_run key_hasher (0::nat)
     [OpInsert 0 10, OpInsert 16 20, OpRemove 0, OpInsert 16 30] (lp_new 16) = Inr lp_twice
   \<and> lp_table lp_twice ! 0 = Occupied 16 30
   \<and> lp_table lp_twice ! 1 = Occupied 16 20
   \<and> lp_size lp_twice = 2"
  by code_simp

text \<open>
  Claim C8 (the resize of the probing map leaves the stored key/value pairs unchanged).
  The map \<open>lp_loaded\<close> is reached by public operations and holds the key 16 twice;
  \<^verbatim>\<open>at(16)\<close> is 30. The next insert meets the prospective load 12/16 and rehashes; the
  rehash reinserts the slots in order, the entry \<open>(16, 20)\<close> of slot 1 overwrites the
  entry \<open>(16, 30)\<close> of slot 0, and \<^verbatim>\<open>at(16)\<close> is 20 afterwards. The capacity has
  doubled, the tombstone count is 0 and no slot of the new table is \<open>Deleted\<close>.
\<close>

theorem lp_rehash_changes_stored_value:
  "lp_run key_hasher (0::nat)
     [OpInsert 0 10, OpInsert 16 20, OpRemove 0, OpInsert 16 30,
      OpInsert 1 1, OpInsert 2 2, OpInsert 3 3, OpInsert 4 4, OpInsert 5 5,
      OpInsert 6 6, OpInsert 7 7, OpInsert 8 8, OpInsert 9 9] (lp_new 16) = Inr lp_loaded
   \<and> lp_at key_hasher lp_loaded 16 = Inr 30
   \<and> lp_needs_rehash lp_loaded
   \<and> lp_rehash key_hasher lp_loaded = Inr lp_rehashed
   \<and> lp_at key_hasher lp_rehashed 16 = Inr 20
   \<and> lp_insert key_hasher lp_loaded 10 10
       = Inr (lp_rehashed\<lparr>lp_table := (lp_table lp_rehashed)[10 := Occupied 10 10],
                           lp_size_count := 11\<rparr>)"
  by code_simp

text \<open>
  Claim C2 (a cuckoo insert that returns normally keeps every key that was present).
  With the default capacity and a hasher that returns the key, the keys 0, 16 and 32
  all have position 0 in both tables. \<^verbatim>\<open>insert(32, 30)\<close> walks 16 evictions between
  the two slots and gives up holding the entry of key 0, which is stored nowhere; the
  rehash reinserts the two entries that are in the tables, the retry finds key 32
  there, and \<^verbatim>\<open>insert\<close> returns normally. Key 0 was present before and is absent
  after, and the size is 2.
\<close>

theorem ck_insert_drops_entry:
  "ck_run key_hashers (0::nat) [OpInsert 0 10, OpInsert 16 20] (ck_new 16) = Inr ck_pair
   \<and> ck_at key_hashers ck_pair 0 = Inr 10
   \<and> ck_contains_key key_hashers ck_pair 0 = Inr True
   \<and> ck_insert key_hashers ck_pair 32 30 = Inr ck_pair_after
   \<and> ck_at key_hashers ck_pair_after 0 = Inl KeyNotFound
   \<and> ck_contains_key key_hashers ck_pair_after 0 = Inr False
   \<and> ck_size ck_pair_after = 2"
  by code_simp

text \<open>
  Claim C9 (the indexing accessor inserts a default value for an absent key and returns
  it without throwing), at the cuckoo map. \<^verbatim>\<open>operator[]\<close> computes the two positions
  of the key once; when the insert rehashes, the capacity and the hashers change, and
  the search after the insert looks at the old positions. With the default capacity
  and the keys 0 to 7 stored, \<^verbatim>\<open>operator[](24)\<close> computes position 8, the insert
  rehashes to capacity 32 and stores key 24 at position 24, and the accessor throws
  its internal error, although the insert has returned normally and \<^verbatim>\<open>at(24)\<close> finds
  the default value.
\<close>

theorem ck_index_throws_after_rehash:
  "ck_run key_hashers (0::nat)
     [OpInsert 0 1, OpInsert 1 1, OpInsert 2 1, OpInsert 3 1, OpInsert 4 1, OpInsert 5 1,
      OpInsert 6 1, OpInsert 7 1] (ck_new 16) = Inr ck_eight
   \<and> ck_contains_key key_hashers ck_eight 24 = Inr False
   \<and> ck_index key_hashers 0 ck_eight 24 = Inl InternalError
   \<and> ck_insert key_hashers ck_eight 24 0 = Inr ck_nine
   \<and> ck_at key_hashers ck_nine 24 = Inr 0"
  by code_simp

text \<open>
  Claim C10 as stated (the capacity is positive for every initial capacity, 0
  included). The three constructors store the argument as it is: a map of each
  variant constructed with 0 has capacity 0, and its slot-index computation takes a
  remainder by 0.
\<close>

theorem capacity_zero_counterexample:
  "sc_capacity (sc_new 0 :: (u64, nat) ScHashMap) = 0
   \<and> lp_capacity (lp_new 0 :: (u64, nat) LpHashMap) = 0
   \<and> ck_capacity (ck_new 0 :: (u64, nat) CkHashMap) = 0
   \<and> sc_get_bucket_index key_hasher (sc_new 0 :: (u64, nat) ScHashMap) 1 = Inl Undefined
   \<and> lp_get_hash key_hasher (lp_new 0 :: (u64, nat) LpHashMap) 1 = Inl Undefined
   \<and> ck_get_hash1 key_hashers (ck_new 0 :: (u64, nat) CkHashMap) 1 = Inl Undefined
   \<and> ck_get_hash2 key_hashers (ck_new 0 :: (u64, nat) CkHashMap) 1 = Inl Undefined"
  by code_simp

section \<open>Proofs: invariants of the chaining map\<close>

lemma foldE_inv:
  assumes "foldE f xs s = Inr s'" "P s"
    and "\<And>x t t'. P t \<Longrightarrow> f x t = Inr t' \<Longrightarrow> P t'"
  shows "P s'"
  using assms(1,2)
proof (induction xs arbitrary: s)
  case Nil
  then show ?case by simp
next
  case (Cons x xs)
  from Cons.prems(1) obtain t where t: "f x s = Inr t" "foldE f xs t = Inr s'"
    by (auto split: sum.splits)
  from assms(3) [OF Cons.prems(2) t(1)] have "P t" .
  with Cons.IH t(2) show ?case by blast
qed

lemma foldE_measure:
  fixes m :: "'s \<Rightarrow> nat" and w :: "'a \<Rightarrow> nat"
  assumes "foldE f xs s = Inr s'"
    and "\<And>x t t'. f x t = Inr t' \<Longrightarrow> m t' \<le> m t + w x"
  shows "m s' \<le> m s + sum_list (map w xs)"
  using assms(1)
proof (induction xs arbitrary: s)
  case Nil
  then show ?case by simp
next
  case (Cons x xs)
  from Cons.prems(1) obtain t where t: "f x s = Inr t" "foldE f xs t = Inr s'"
    by (auto split: sum.splits)
  have "m t \<le> m s + w x" using assms(2) [OF t(1)] .
  moreover have "m s' \<le> m t + sum_list (map w xs)" using Cons.IH [OF t(2)] .
  ultimately show ?case by simp
qed

lemma bucket_assign_length:
  "bucket_assign b key val = Some b' \<Longrightarrow> length b' = length b"
  by (induction b key val arbitrary: b' rule: bucket_assign.induct)
     (auto split: if_splits option.splits)

lemma bucket_erase_length:
  "bucket_erase b key = Some (v, b') \<Longrightarrow> Suc (length b') = length b"
  by (induction b key arbitrary: b' v rule: bucket_erase.induct)
     (auto split: if_splits option.splits)

lemma sum_length_update:
  "i < length bs \<Longrightarrow>
   sum_list (map length (bs[i := b])) + length (bs ! i) = sum_list (map length bs) + length b"
proof (induction bs arbitrary: i)
  case Nil
  then show ?case by simp
next
  case (Cons a bs)
  then show ?case by (cases i) auto
qed

lemma sc_get_bucket_index_Inr:
  "sc_get_bucket_index hasher s key = Inr i \<Longrightarrow> 0 < sc_capacity s \<and> i < sc_capacity s"
  by (auto simp add: sc_get_bucket_index_def split: if_splits)

lemma sc_inner_insert_inv:
  assumes "sc_inner_insert hasher s key val = Inr s'" "sc_inv s"
  shows "sc_inv s' \<and> sc_capacity s' = sc_capacity s \<and> sc_size_count s' \<le> sc_size_count s + 1"
proof -
  from assms(1) obtain i where i: "sc_get_bucket_index hasher s key = Inr i"
    "i < length (sc_buckets s)"
    by (auto simp add: sc_inner_insert_def split: sum.splits if_splits)
  show ?thesis
  proof (cases "bucket_assign (sc_buckets s ! i) key val")
    case None
    with assms(1) i have s': "s' = s\<lparr>sc_buckets := (sc_buckets s)[i := sc_buckets s ! i @ [(key, val)]],
        sc_size_count := sc_size_count s + 1\<rparr>"
      by (simp add: sc_inner_insert_def)
    show ?thesis using assms(2) i(2) sum_length_update [OF i(2), of "sc_buckets s ! i @ [(key, val)]"]
      by (simp add: s' sc_inv_def)
  next
    case (Some b')
    with assms(1) i have s': "s' = s\<lparr>sc_buckets := (sc_buckets s)[i := b']\<rparr>"
      by (simp add: sc_inner_insert_def)
    show ?thesis using assms(2) i(2) sum_length_update [OF i(2), of b'] bucket_assign_length [OF Some]
      by (simp add: s' sc_inv_def)
  qed
qed

lemma sc_inner_insert_size:
  "sc_inner_insert hasher s key val = Inr s' \<Longrightarrow> sc_size_count s' \<le> sc_size_count s + 1"
  by (auto simp add: sc_inner_insert_def Let_def split: sum.splits if_splits option.splits)

lemma sc_resize_inv:
  assumes "sc_resize hasher s = Inr s'" "sc_inv s"
  shows "sc_inv s' \<and> sc_capacity s' = 2 * sc_capacity s \<and> sc_size_count s' \<le> sc_size_count s"
proof -
  let ?s0 = "s\<lparr>sc_capacity := sc_capacity s * 2,
               sc_buckets := replicate (sc_capacity s * 2) [], sc_size_count := 0\<rparr>"
  let ?inner = "\<lambda>entry t. sc_inner_insert hasher t (fst entry) (snd entry)"
  let ?P = "\<lambda>t. sc_inv t \<and> sc_capacity t = 2 * sc_capacity s"
  have run: "foldE (\<lambda>bucket. foldE ?inner bucket) (sc_buckets s) ?s0 = Inr s'"
    using assms(1) by (simp add: sc_resize_def Let_def)
  have P0: "?P ?s0" by (simp add: sc_inv_def)
  have inner_P: "\<And>x t t'. ?P t \<Longrightarrow> ?inner x t = Inr t' \<Longrightarrow> ?P t'"
    using sc_inner_insert_inv by metis
  have outer_P: "\<And>b t t'. ?P t \<Longrightarrow> foldE ?inner b t = Inr t' \<Longrightarrow> ?P t'"
    by (rule foldE_inv [where P = ?P]) (use inner_P in blast)+
  have P': "?P s'"
    by (rule foldE_inv [where P = ?P, OF run P0]) (use outer_P in blast)
  have inner_m: "\<And>b t t'. foldE ?inner b t = Inr t' \<Longrightarrow> sc_size_count t' \<le> sc_size_count t + length b"
  proof -
    fix b t t' assume "foldE ?inner b t = Inr t'"
    then have "sc_size_count t' \<le> sc_size_count t + sum_list (map (\<lambda>x. 1) b)"
      by (rule foldE_measure) (rule sc_inner_insert_size)
    then show "sc_size_count t' \<le> sc_size_count t + length b"
      by (simp add: sum_list_triv)
  qed
  have "sc_size_count s' \<le> sc_size_count ?s0 + sum_list (map length (sc_buckets s))"
    by (rule foldE_measure [OF run]) (rule inner_m)
  then have "sc_size_count s' \<le> sc_size_count s"
    using assms(2) by (simp add: sc_inv_def)
  with P' show ?thesis by simp
qed

lemma sc_insert_inv:
  assumes "sc_insert hasher s key val = Inr s'" "sc_inv s"
  shows "sc_inv s'"
    and "sc_capacity s \<le> sc_capacity s'"
    and "0 < sc_capacity s'"
    and "4 * sc_size_count s \<le> 3 * sc_capacity s \<Longrightarrow> 4 * sc_size_count s' \<le> 3 * sc_capacity s'"
proof -
  let ?t = "if 4 * (sc_size_count s + 1) > 3 * sc_capacity s then sc_resize hasher s else Inr s"
  from assms(1) obtain t where t: "?t = Inr t" "sc_inner_insert hasher t key val = Inr s'"
    by (auto simp add: sc_insert_def split: sum.splits)
  have capt: "0 < sc_capacity t"
    using sc_get_bucket_index_Inr [of hasher t key] t(2)
    by (auto simp add: sc_inner_insert_def split: sum.splits)
  have tinv: "sc_inv t \<and> sc_capacity s \<le> sc_capacity t \<and> sc_size_count t \<le> sc_size_count s
      \<and> (4 * sc_size_count s \<le> 3 * sc_capacity s \<longrightarrow> 4 * (sc_size_count t + 1) \<le> 3 * sc_capacity t)"
  proof (cases "4 * (sc_size_count s + 1) > 3 * sc_capacity s")
    case True
    with t(1) have "sc_resize hasher s = Inr t" by simp
    from sc_resize_inv [OF this assms(2)]
    have r: "sc_inv t" "sc_capacity t = 2 * sc_capacity s" "sc_size_count t \<le> sc_size_count s"
      by auto
    have "4 * (sc_size_count t + 1) \<le> 3 * sc_capacity t"
      if "4 * sc_size_count s \<le> 3 * sc_capacity s"
    proof (cases "sc_capacity s = 1")
      case True
      with that r show ?thesis by simp
    next
      case False
      with capt r(2) have "2 \<le> sc_capacity s" by simp
      with that r show ?thesis by simp
    qed
    with r show ?thesis by simp
  next
    case False
    with t(1) assms(2) show ?thesis by auto
  qed
  from sc_inner_insert_inv [OF t(2)] tinv
  have s': "sc_inv s'" "sc_capacity s' = sc_capacity t" "sc_size_count s' \<le> sc_size_count t + 1"
    by auto
  show "sc_inv s'" by (rule s'(1))
  show "sc_capacity s \<le> sc_capacity s'" using s'(2) tinv by simp
  show "0 < sc_capacity s'" using capt s'(2) by simp
  show "4 * sc_size_count s' \<le> 3 * sc_capacity s'" if "4 * sc_size_count s \<le> 3 * sc_capacity s"
    using that s'(2,3) tinv by auto
qed

lemma sc_remove_inv:
  assumes "sc_remove hasher s key = Inr (s', r)" "sc_inv s"
  shows "sc_inv s' \<and> sc_capacity s' = sc_capacity s \<and> sc_size_count s' \<le> sc_size_count s"
proof -
  from assms(1) obtain i where i: "sc_get_bucket_index hasher s key = Inr i"
    "i < length (sc_buckets s)"
    by (auto simp add: sc_remove_def split: sum.splits if_splits)
  show ?thesis
  proof (cases "bucket_erase (sc_buckets s ! i) key")
    case None
    with assms i show ?thesis by (simp add: sc_remove_def)
  next
    case (Some p)
    obtain v b' where p: "p = (v, b')" by (cases p)
    with Some assms(1) i have s': "s' = s\<lparr>sc_buckets := (sc_buckets s)[i := b'],
        sc_size_count := sc_size_count s - 1\<rparr>"
      by (simp add: sc_remove_def)
    from Some p have "Suc (length b') = length (sc_buckets s ! i)"
      by (simp add: bucket_erase_length)
    then show ?thesis using assms(2) i(2) sum_length_update [OF i(2), of b']
      by (simp add: s' sc_inv_def)
  qed
qed

lemma sc_clear_inv:
  assumes "sc_inv s"
  shows "sc_inv (sc_clear s) \<and> sc_capacity (sc_clear s) = sc_capacity s
         \<and> sc_size_count (sc_clear s) = 0"
proof -
  have "sum_list (map length (map (\<lambda>bucket. []) (sc_buckets s))) = 0"
    by (induction "sc_buckets s") (simp_all add: comp_def)
  then show ?thesis using assms by (simp add: sc_clear_def sc_inv_def)
qed

lemma sc_index_cases:
  assumes "sc_index hasher dflt s key = Inr (s', v)"
  shows "s' = s \<or> sc_insert hasher s key dflt = Inr s'"
  using assms
  by (auto simp add: sc_index_def split: sum.splits if_splits option.splits)

lemma sc_apply_cases:
  assumes "sc_apply hasher dflt op s = Inr s'"
  obtains (insert) key val where "sc_insert hasher s key val = Inr s'"
    | (remove) key r where "sc_remove hasher s key = Inr (s', r)"
    | (clear) "s' = sc_clear s"
    | (same) "s' = s"
proof (cases op)
  case (OpInsert key val)
  with assms insert show ?thesis by (simp add: sc_apply_def)
next
  case (OpRemove key)
  with assms remove show ?thesis by (auto simp add: sc_apply_def split: sum.splits)
next
  case OpClear
  with assms clear show ?thesis by (simp add: sc_apply_def)
next
  case (OpIndex key)
  with assms obtain v where "sc_index hasher dflt s key = Inr (s', v)"
    by (auto simp add: sc_apply_def split: sum.splits)
  from sc_index_cases [OF this] insert same show ?thesis by blast
qed

lemma sc_reachable_inv:
  assumes "sc_reachable hasher dflt c s"
  shows "sc_inv s \<and> (0 < c \<longrightarrow> 0 < sc_capacity s \<and> 4 * sc_size_count s \<le> 3 * sc_capacity s)"
  using assms
proof (induction rule: sc_reachable.induct)
  case sc_reach_new
  show ?case by (simp add: sc_new_def sc_inv_def)
next
  case (sc_reach_step s op s')
  from sc_reach_step.hyps(2) show ?case
  proof (cases rule: sc_apply_cases)
    case (insert key val)
    from sc_insert_inv [OF insert] sc_reach_step.IH show ?thesis by blast
  next
    case (remove key r)
    from sc_remove_inv [OF remove] sc_reach_step.IH show ?thesis by auto
  next
    case clear
    with sc_clear_inv [of s] sc_reach_step.IH show ?thesis by auto
  next
    case same
    with sc_reach_step.IH show ?thesis by simp
  qed
qed

section \<open>Proofs: invariants of the probing map\<close>

lemma length_filter_update:
  "i < length xs \<Longrightarrow>
   length (filter P (xs[i := y])) + (if P (xs ! i) then 1 else 0)
     = length (filter P xs) + (if P y then 1 else 0)"
proof (induction xs arbitrary: i)
  case Nil
  then show ?case by simp
next
  case (Cons a xs)
  then show ?case by (cases i) auto
qed

lemma lp_get_hash_Inr:
  "lp_get_hash hasher s key = Inr i \<Longrightarrow> 0 < lp_capacity s \<and> i < lp_capacity s"
  by (auto simp add: lp_get_hash_def split: if_splits)

lemma insert_probe_Inr:
  "insert_probe table capacity key original_index index = Inr j \<Longrightarrow>
   j < capacity \<and> j < length table \<and> (occupied_with (table ! j) key \<or> \<not> is_occupied (table ! j))"
proof (induction table capacity key original_index index rule: insert_probe.induct)
  case (1 table capacity key original_index index)
  show ?case
  proof (cases "index < capacity \<and> original_index < capacity \<and> index < length table")
    case False
    with "1.prems" show ?thesis by (simp add: insert_probe.simps)
  next
    case guard: True
    show ?thesis
    proof (cases "table ! index")
      case Empty
      with guard "1.prems" show ?thesis by (simp add: insert_probe.simps)
    next
      case Deleted
      with guard "1.prems" show ?thesis by (simp add: insert_probe.simps)
    next
      case (Occupied k v)
      show ?thesis
      proof (cases "k = key")
        case True
        with guard Occupied "1.prems" show ?thesis by (simp add: insert_probe.simps)
      next
        case False
        with guard Occupied "1.prems"
        have next_index: "(index + 1) mod capacity \<noteq> original_index"
          and rec: "insert_probe table capacity key original_index ((index + 1) mod capacity) = Inr j"
          by (auto simp add: insert_probe.simps [of table capacity key original_index index] Let_def
                split: if_splits)
        show ?thesis
          by (rule "1.IH" [OF guard Occupied False refl next_index rec])
      qed
    qed
  qed
qed

lemma lookup_probe_Inr:
  "lookup_probe table capacity key original_index index = Inr j \<Longrightarrow>
   j = capacity \<or> (j < capacity \<and> j < length table \<and> occupied_with (table ! j) key)"
proof (induction table capacity key original_index index rule: lookup_probe.induct)
  case (1 table capacity key original_index index)
  show ?case
  proof (cases "index < capacity \<and> original_index < capacity \<and> index < length table")
    case False
    with "1.prems" show ?thesis by (simp add: lookup_probe.simps)
  next
    case guard: True
    show ?thesis
    proof (cases "table ! index")
      case Empty
      with guard "1.prems" show ?thesis by (simp add: lookup_probe.simps)
    next
      case Deleted
      show ?thesis
      proof (cases "(index + 1) mod capacity \<noteq> original_index")
        case True
        with guard Deleted "1.prems"
        have rec: "lookup_probe table capacity key original_index ((index + 1) mod capacity) = Inr j"
          by (simp add: lookup_probe.simps [of table capacity key original_index index] Let_def)
        show ?thesis by (rule "1.IH"(2) [OF guard Deleted refl True rec])
      next
        case False
        with guard Deleted "1.prems" show ?thesis
          by (simp add: lookup_probe.simps [of table capacity key original_index index] Let_def)
      qed
    next
      case (Occupied k v)
      show ?thesis
      proof (cases "k = key")
        case True
        with guard Occupied "1.prems" show ?thesis by (simp add: lookup_probe.simps)
      next
        case neq: False
        show ?thesis
        proof (cases "(index + 1) mod capacity \<noteq> original_index")
          case True
          with guard Occupied neq "1.prems"
          have rec: "lookup_probe table capacity key original_index ((index + 1) mod capacity) = Inr j"
            by (simp add: lookup_probe.simps [of table capacity key original_index index] Let_def)
          show ?thesis by (rule "1.IH"(1) [OF guard Occupied neq refl True rec])
        next
          case False
          with guard Occupied neq "1.prems" show ?thesis
            by (simp add: lookup_probe.simps [of table capacity key original_index index] Let_def)
        qed
      qed
    qed
  qed
qed

lemma lp_find_slot_for_insert_Inr:
  assumes "lp_find_slot_for_insert hasher s key = Inr j"
  shows "0 < lp_capacity s" "j < lp_capacity s" "j < length (lp_table s)"
    "occupied_with (lp_table s ! j) key \<or> \<not> is_occupied (lp_table s ! j)"
proof -
  from assms obtain i where i: "lp_get_hash hasher s key = Inr i"
    "insert_probe (lp_table s) (lp_capacity s) key i i = Inr j"
    by (auto simp add: lp_find_slot_for_insert_def split: sum.splits)
  from lp_get_hash_Inr [OF i(1)] show "0 < lp_capacity s" by simp
  from insert_probe_Inr [OF i(2)]
  show "j < lp_capacity s" "j < length (lp_table s)"
    "occupied_with (lp_table s ! j) key \<or> \<not> is_occupied (lp_table s ! j)"
    by auto
qed

lemma occupied_with_is_occupied: "occupied_with e key \<Longrightarrow> is_occupied e"
  by (cases e) auto

lemma lp_inner_insert_inv:
  assumes "lp_inner_insert hasher s key val = Inr s'" "lp_inv s"
  shows "lp_inv s'" "lp_capacity s' = lp_capacity s" "0 < lp_capacity s"
    "lp_size_count s' \<le> lp_size_count s + 1" "lp_deleted_count s' \<le> lp_deleted_count s"
proof -
  from assms(1) obtain j where j: "lp_find_slot_for_insert hasher s key = Inr j"
    by (auto simp add: lp_inner_insert_def split: sum.splits)
  note f = lp_find_slot_for_insert_Inr [OF j]
  let ?e = "lp_table s ! j"
  note occ = length_filter_update [OF f(3), of is_occupied "Occupied key val"]
  note del = length_filter_update [OF f(3), of "\<lambda>e. e = Deleted" "Occupied key val"]
  have all: "lp_inv s' \<and> lp_capacity s' = lp_capacity s \<and>
    lp_size_count s' \<le> lp_size_count s + 1 \<and> lp_deleted_count s' \<le> lp_deleted_count s"
  proof (cases "occupied_with ?e key")
    case True
    with assms(1) j have s': "s' = s\<lparr>lp_table := (lp_table s)[j := Occupied key val]\<rparr>"
      by (simp add: lp_inner_insert_def)
    from True have "is_occupied ?e" "?e \<noteq> Deleted"
      by (auto simp add: occupied_with_is_occupied)
    with occ del assms(2) show ?thesis by (simp add: s' lp_inv_def)
  next
    case False
    with f(4) have nocc: "\<not> is_occupied ?e" by simp
    show ?thesis
    proof (cases "?e = Deleted")
      case True
      with assms(1) j False
      have s': "s' = s\<lparr>lp_deleted_count := lp_deleted_count s - 1,
          lp_table := (lp_table s)[j := Occupied key val],
          lp_size_count := lp_size_count s + 1\<rparr>"
        by (simp add: lp_inner_insert_def Let_def)
      from occ del nocc True assms(2) show ?thesis by (simp add: s' lp_inv_def)
    next
      case ndel: False
      with assms(1) j False
      have s': "s' = s\<lparr>lp_table := (lp_table s)[j := Occupied key val],
          lp_size_count := lp_size_count s + 1\<rparr>"
        by (simp add: lp_inner_insert_def Let_def)
      from occ del nocc ndel assms(2) show ?thesis by (simp add: s' lp_inv_def)
    qed
  qed
  then show "lp_inv s'" "lp_capacity s' = lp_capacity s"
    "lp_size_count s' \<le> lp_size_count s + 1" "lp_deleted_count s' \<le> lp_deleted_count s"
    by auto
  show "0 < lp_capacity s" by (rule f(1))
qed

lemma sum_list_is_occupied:
  "sum_list (map (\<lambda>e. if is_occupied e then 1 else 0) xs) = length (filter is_occupied xs)"
  by (induction xs) auto

lemma lp_rehash_inv:
  assumes "lp_rehash hasher s = Inr s'" "lp_inv s"
  shows "lp_inv s'" "lp_capacity s' = 2 * lp_capacity s" "lp_size_count s' \<le> lp_size_count s"
    "lp_deleted_count s' = 0"
proof -
  let ?s0 = "s\<lparr>lp_capacity := lp_capacity s * 2,
               lp_table := replicate (lp_capacity s * 2) Empty,
               lp_size_count := 0, lp_deleted_count := 0\<rparr>"
  let ?body = "\<lambda>entry t. case entry of
                   Occupied k v \<Rightarrow> lp_inner_insert hasher t k v
                 | Empty \<Rightarrow> Inr t
                 | Deleted \<Rightarrow> Inr t"
  let ?P = "\<lambda>t. lp_inv t \<and> lp_capacity t = 2 * lp_capacity s \<and> lp_deleted_count t = 0"
  have run: "foldE ?body (lp_table s) ?s0 = Inr s'"
    using assms(1) by (simp add: lp_rehash_def Let_def)
  have P0: "?P ?s0" by (simp add: lp_inv_def)
  have step: "?P t'" if "?P t" "?body x t = Inr t'" for x t t'
  proof (cases x)
    case (Occupied k v)
    with that(2) have "lp_inner_insert hasher t k v = Inr t'" by simp
    from lp_inner_insert_inv [OF this] that(1) show ?thesis by simp
  qed (use that in auto)
  have P': "?P s'"
    by (rule foldE_inv [where P = ?P, OF run P0]) (rule step)
  have stepm: "lp_size_count t' \<le> lp_size_count t + (if is_occupied x then 1 else 0)"
    if "?P t" "?body x t = Inr t'" for x t t'
  proof (cases x)
    case (Occupied k v)
    with that(2) have "lp_inner_insert hasher t k v = Inr t'" by simp
    from lp_inner_insert_inv(4) [OF this] that(1) Occupied show ?thesis by simp
  qed (use that in auto)
  let ?Q = "\<lambda>n t. ?P t \<and> lp_size_count t \<le> n"
  have gen: "foldE ?body xs t = Inr t' \<Longrightarrow> ?P t
      \<Longrightarrow> lp_size_count t' \<le> lp_size_count t + length (filter is_occupied xs)" for xs t t'
  proof (induction xs arbitrary: t)
    case Nil
    then show ?case by simp
  next
    case (Cons x xs)
    from Cons.prems(1) obtain u where u: "?body x t = Inr u" "foldE ?body xs u = Inr t'"
      by (auto split: sum.splits)
    from step [OF Cons.prems(2) u(1)] have Pu: "?P u" .
    from stepm [OF Cons.prems(2) u(1)] Cons.IH [OF u(2) Pu] show ?case by auto
  qed
  from gen [OF run P0] assms(2) have "lp_size_count s' \<le> lp_size_count s"
    by (simp add: lp_inv_def)
  with P' show "lp_inv s'" "lp_capacity s' = 2 * lp_capacity s"
    "lp_size_count s' \<le> lp_size_count s" "lp_deleted_count s' = 0"
    by auto
qed

lemma lp_insert_inv:
  assumes "lp_insert hasher s key val = Inr s'" "lp_inv s"
  shows "lp_inv s'"
    and "lp_capacity s \<le> lp_capacity s'"
    and "0 < lp_capacity s'"
    and "10 * lp_size_count s \<le> 7 * lp_capacity s \<Longrightarrow> 10 * lp_size_count s' \<le> 7 * lp_capacity s'"
proof -
  let ?t = "if lp_needs_rehash s then lp_rehash hasher s else Inr s"
  from assms(1) obtain t where t: "?t = Inr t" "lp_inner_insert hasher t key val = Inr s'"
    by (auto simp add: lp_insert_def split: sum.splits)
  have tinv: "lp_inv t"
    and tcap: "lp_capacity s \<le> lp_capacity t"
    and tload: "10 * lp_size_count s \<le> 7 * lp_capacity s \<Longrightarrow> 0 < lp_capacity t
        \<Longrightarrow> 10 * (lp_size_count t + 1) \<le> 7 * lp_capacity t"
  proof -
    show "lp_inv t" using t(1) assms(2) lp_rehash_inv(1) [of hasher s t]
      by (auto split: if_splits)
    show "lp_capacity s \<le> lp_capacity t" using t(1) assms(2) lp_rehash_inv(2) [of hasher s t]
      by (auto split: if_splits)
    show "10 * (lp_size_count t + 1) \<le> 7 * lp_capacity t"
      if l: "10 * lp_size_count s \<le> 7 * lp_capacity s" and pos: "0 < lp_capacity t"
    proof (cases "lp_needs_rehash s")
      case False
      with t(1) show ?thesis by (simp add: lp_needs_rehash_def)
    next
      case True
      with t(1) have r: "lp_rehash hasher s = Inr t" by simp
      note ri = lp_rehash_inv(2,3) [OF r assms(2)]
      show ?thesis
      proof (cases "lp_capacity s = 1")
        case True
        with l have "lp_size_count s = 0" by simp
        with True ri show ?thesis by simp
      next
        case False
        with pos ri(1) have "2 \<le> lp_capacity s" by simp
        with l ri show ?thesis by simp
      qed
    qed
  qed
  note ii = lp_inner_insert_inv [OF t(2) tinv]
  show "lp_inv s'" by (rule ii(1))
  show "lp_capacity s \<le> lp_capacity s'" using ii(2) tcap by simp
  show "0 < lp_capacity s'" using ii(2,3) by simp
  show "10 * lp_size_count s' \<le> 7 * lp_capacity s'" if "10 * lp_size_count s \<le> 7 * lp_capacity s"
    using tload [OF that ii(3)] ii(2,4) by simp
qed

lemma lp_find_slot_for_lookup_Inr:
  assumes "lp_find_slot_for_lookup hasher s key = Inr j"
  shows "0 < lp_capacity s"
    "j = lp_capacity s \<or> (j < lp_capacity s \<and> j < length (lp_table s) \<and> occupied_with (lp_table s ! j) key)"
proof -
  from assms obtain i where i: "lp_get_hash hasher s key = Inr i"
    "lookup_probe (lp_table s) (lp_capacity s) key i i = Inr j"
    by (auto simp add: lp_find_slot_for_lookup_def split: sum.splits)
  from lp_get_hash_Inr [OF i(1)] show "0 < lp_capacity s" by simp
  from lookup_probe_Inr [OF i(2)]
  show "j = lp_capacity s \<or> (j < lp_capacity s \<and> j < length (lp_table s) \<and> occupied_with (lp_table s ! j) key)" .
qed

lemma lp_remove_inv:
  assumes "lp_remove hasher s key = Inr (s', r)" "lp_inv s"
  shows "lp_inv s' \<and> lp_capacity s' = lp_capacity s \<and> lp_size_count s' \<le> lp_size_count s"
proof -
  from assms(1) obtain j where j: "lp_find_slot_for_lookup hasher s key = Inr j"
    by (auto simp add: lp_remove_def split: sum.splits)
  note f = lp_find_slot_for_lookup_Inr [OF j]
  show ?thesis
  proof (cases "j < lp_capacity s")
    case False
    with assms j show ?thesis by (simp add: lp_remove_def)
  next
    case True
    with f(2) have jl: "j < length (lp_table s)" and ow: "occupied_with (lp_table s ! j) key"
      by auto
    from ow obtain k v where e: "lp_table s ! j = Occupied k v" by (cases "lp_table s ! j") auto
    with assms(1) j True have s': "s' = s\<lparr>lp_table := (lp_table s)[j := Deleted],
        lp_deleted_count := lp_deleted_count s + 1, lp_size_count := lp_size_count s - 1\<rparr>"
      by (simp add: lp_remove_def)
    from length_filter_update [OF jl, of is_occupied Deleted]
      length_filter_update [OF jl, of "\<lambda>e. e = Deleted" Deleted] e assms(2)
    show ?thesis by (simp add: s' lp_inv_def)
  qed
qed

lemma lp_clear_inv:
  assumes "lp_inv s"
  shows "lp_inv (lp_clear s) \<and> lp_capacity (lp_clear s) = lp_capacity s
         \<and> lp_size_count (lp_clear s) = 0"
proof -
  have "filter is_occupied (map (\<lambda>entry. Empty) xs) = []"
    and "filter (\<lambda>e. e = Deleted) (map (\<lambda>entry. Empty) xs) = []" for xs :: "('a, 'b) Entry list"
    by (induction xs) simp_all
  then show ?thesis using assms by (simp add: lp_clear_def lp_inv_def)
qed

lemma lp_index_cases:
  assumes "lp_index hasher dflt s key = Inr (s', v)"
  shows "s' = s \<or> lp_insert hasher s key dflt = Inr s'"
  using assms
  by (auto simp add: lp_index_def split: sum.splits if_splits Entry.splits)

lemma lp_apply_cases:
  assumes "lp_apply hasher dflt op s = Inr s'"
  obtains (insert) key val where "lp_insert hasher s key val = Inr s'"
    | (remove) key r where "lp_remove hasher s key = Inr (s', r)"
    | (clear) "s' = lp_clear s"
    | (same) "s' = s"
proof (cases op)
  case (OpInsert key val)
  with assms insert show ?thesis by (simp add: lp_apply_def)
next
  case (OpRemove key)
  with assms remove show ?thesis by (auto simp add: lp_apply_def split: sum.splits)
next
  case OpClear
  with assms clear show ?thesis by (simp add: lp_apply_def)
next
  case (OpIndex key)
  with assms obtain v where "lp_index hasher dflt s key = Inr (s', v)"
    by (auto simp add: lp_apply_def split: sum.splits)
  from lp_index_cases [OF this] insert same show ?thesis by blast
qed

lemma lp_reachable_inv:
  assumes "lp_reachable hasher dflt c s"
  shows "lp_inv s \<and> (0 < c \<longrightarrow> 0 < lp_capacity s \<and> 10 * lp_size_count s \<le> 7 * lp_capacity s)"
  using assms
proof (induction rule: lp_reachable.induct)
  case lp_reach_new
  show ?case by (simp add: lp_new_def lp_inv_def)
next
  case (lp_reach_step s op s')
  from lp_reach_step.hyps(2) show ?case
  proof (cases rule: lp_apply_cases)
    case (insert key val)
    from lp_insert_inv [OF insert] lp_reach_step.IH show ?thesis by blast
  next
    case (remove key r)
    from lp_remove_inv [OF remove] lp_reach_step.IH show ?thesis by auto
  next
    case clear
    with lp_clear_inv [of s] lp_reach_step.IH show ?thesis by auto
  next
    case same
    with lp_reach_step.IH show ?thesis by simp
  qed
qed

section \<open>Proofs: invariants of the cuckoo map\<close>

lemma ck_get_hash1_Inr:
  "ck_get_hash1 mk s key = Inr p \<Longrightarrow>
   0 < ck_capacity s \<and> p < ck_capacity s \<and> p = unat (mk (ck_hasher1 s) key) mod ck_capacity s"
  by (auto simp add: ck_get_hash1_def split: if_splits)

lemma ck_get_hash2_Inr:
  "ck_get_hash2 mk s key = Inr p \<Longrightarrow>
   0 < ck_capacity s \<and> p < ck_capacity s \<and> p = unat (mk (ck_hasher2 s) key) mod ck_capacity s"
  by (auto simp add: ck_get_hash2_def split: if_splits)

lemma ck_placed_update:
  assumes "ck_placed h c t" "unat (h (fst e)) mod c = i"
  shows "ck_placed h c (t[i := Some e])"
  unfolding ck_placed_def
proof (intro allI impI)
  fix j k v
  assume j: "j < length (t[i := Some e])" and at: "t[i := Some e] ! j = Some (k, v)"
  show "unat (h k) mod c = j"
  proof (cases "j = i")
    case True
    with j at have "e = (k, v)" by simp
    with assms(2) True show ?thesis by simp
  next
    case False
    with j at have "j < length t" "t ! j = Some (k, v)" by simp_all
    with assms(1) show ?thesis unfolding ck_placed_def by blast
  qed
qed

lemma ck_placed_erase:
  assumes "ck_placed h c t"
  shows "ck_placed h c (t[i := None])"
  unfolding ck_placed_def
proof (intro allI impI)
  fix j k v
  assume j: "j < length (t[i := None])" and at: "t[i := None] ! j = Some (k, v)"
  show "unat (h k) mod c = j"
  proof (cases "j = i")
    case True
    with j at show ?thesis by simp
  next
    case False
    with j at have "j < length t" "t ! j = Some (k, v)" by simp_all
    with assms(1) show ?thesis unfolding ck_placed_def by blast
  qed
qed

lemma ck_placed_replicate: "ck_placed h c (replicate n None)"
  by (simp add: ck_placed_def)

lemma ck_inv_put1:
  assumes "ck_inv mk s" "ck_get_hash1 mk s (fst e) = Inr p"
  shows "ck_table1 s ! p \<noteq> None \<Longrightarrow> ck_inv mk (s\<lparr>ck_table1 := (ck_table1 s)[p := Some e]\<rparr>)"
    and "ck_table1 s ! p = None \<Longrightarrow>
         ck_inv mk (s\<lparr>ck_table1 := (ck_table1 s)[p := Some e], ck_size_count := ck_size_count s + 1\<rparr>)"
proof -
  from ck_get_hash1_Inr [OF assms(2)] assms(1)
  have p: "p < length (ck_table1 s)" "unat (mk (ck_hasher1 s) (fst e)) mod ck_capacity s = p"
    by (auto simp add: ck_inv_def)
  note cnt = length_filter_update [OF p(1), of "\<lambda>e. e \<noteq> None" "Some e"]
  note pl = ck_placed_update [of "mk (ck_hasher1 s)" "ck_capacity s" "ck_table1 s" e p]
  show "ck_inv mk (s\<lparr>ck_table1 := (ck_table1 s)[p := Some e]\<rparr>)" if "ck_table1 s ! p \<noteq> None"
    using that cnt pl p assms(1) by (simp add: ck_inv_def)
  show "ck_inv mk (s\<lparr>ck_table1 := (ck_table1 s)[p := Some e], ck_size_count := ck_size_count s + 1\<rparr>)"
    if "ck_table1 s ! p = None"
    using that cnt pl p assms(1) by (simp add: ck_inv_def)
qed

lemma ck_inv_put2:
  assumes "ck_inv mk s" "ck_get_hash2 mk s (fst e) = Inr p"
  shows "ck_table2 s ! p \<noteq> None \<Longrightarrow> ck_inv mk (s\<lparr>ck_table2 := (ck_table2 s)[p := Some e]\<rparr>)"
    and "ck_table2 s ! p = None \<Longrightarrow>
         ck_inv mk (s\<lparr>ck_table2 := (ck_table2 s)[p := Some e], ck_size_count := ck_size_count s + 1\<rparr>)"
proof -
  from ck_get_hash2_Inr [OF assms(2)] assms(1)
  have p: "p < length (ck_table2 s)" "unat (mk (ck_hasher2 s) (fst e)) mod ck_capacity s = p"
    by (auto simp add: ck_inv_def)
  note cnt = length_filter_update [OF p(1), of "\<lambda>e. e \<noteq> None" "Some e"]
  note pl = ck_placed_update [of "mk (ck_hasher2 s)" "ck_capacity s" "ck_table2 s" e p]
  show "ck_inv mk (s\<lparr>ck_table2 := (ck_table2 s)[p := Some e]\<rparr>)" if "ck_table2 s ! p \<noteq> None"
    using that cnt pl p assms(1) by (simp add: ck_inv_def)
  show "ck_inv mk (s\<lparr>ck_table2 := (ck_table2 s)[p := Some e], ck_size_count := ck_size_count s + 1\<rparr>)"
    if "ck_table2 s ! p = None"
    using that cnt pl p assms(1) by (simp add: ck_inv_def)
qed

lemma eviction_walk_inv:
  assumes "eviction_walk mk s n e use_table1 = Inr (ok, s')" "ck_inv mk s"
  shows "ck_inv mk s' \<and> ck_same_shape s s' \<and> ck_size_count s' \<le> ck_size_count s + 1
         \<and> (\<not> ok \<longrightarrow> ck_size_count s' = ck_size_count s)"
  using assms
proof (induction n arbitrary: s e use_table1)
  case 0
  then show ?case by (simp add: ck_same_shape_def)
next
  case (Suc n)
  show ?case
  proof (cases use_table1)
    case True
    with Suc.prems(1) obtain p where p: "ck_get_hash1 mk s (fst e) = Inr p"
      "p < length (ck_table1 s)"
      by (auto split: sum.splits if_splits)
    note put = ck_inv_put1 [OF Suc.prems(2) p(1)]
    show ?thesis
    proof (cases "ck_table1 s ! p")
      case None
      with Suc.prems(1) True p have "ok" and
        s': "s' = s\<lparr>ck_table1 := (ck_table1 s)[p := Some e], ck_size_count := ck_size_count s + 1\<rparr>"
        by auto
      with put(2) [OF None] show ?thesis by (simp add: ck_same_shape_def)
    next
      case (Some occupant)
      let ?s1 = "s\<lparr>ck_table1 := (ck_table1 s)[p := Some e]\<rparr>"
      from Suc.prems(1) True p Some
      have rec: "eviction_walk mk ?s1 n occupant False = Inr (ok, s')" by simp
      from put(1) Some have "ck_inv mk ?s1" by simp
      from Suc.IH [OF rec this] show ?thesis by (simp add: ck_same_shape_def)
    qed
  next
    case False
    with Suc.prems(1) obtain p where p: "ck_get_hash2 mk s (fst e) = Inr p"
      "p < length (ck_table2 s)"
      by (auto split: sum.splits if_splits)
    note put = ck_inv_put2 [OF Suc.prems(2) p(1)]
    show ?thesis
    proof (cases "ck_table2 s ! p")
      case None
      with Suc.prems(1) False p have "ok" and
        s': "s' = s\<lparr>ck_table2 := (ck_table2 s)[p := Some e], ck_size_count := ck_size_count s + 1\<rparr>"
        by auto
      with put(2) [OF None] show ?thesis by (simp add: ck_same_shape_def)
    next
      case (Some occupant)
      let ?s1 = "s\<lparr>ck_table2 := (ck_table2 s)[p := Some e]\<rparr>"
      from Suc.prems(1) False p Some
      have rec: "eviction_walk mk ?s1 n occupant True = Inr (ok, s')" by simp
      from put(1) Some have "ck_inv mk ?s1" by simp
      from Suc.IH [OF rec this] show ?thesis by (simp add: ck_same_shape_def)
    qed
  qed
qed

lemma holds_key_not_None: "holds_key e key \<Longrightarrow> e \<noteq> None"
  by (cases e) auto

lemma ck_inner_insert_inv:
  assumes "ck_inner_insert mk s key val = Inr (ok, s')" "ck_inv mk s"
  shows "ck_inv mk s' \<and> ck_same_shape s s' \<and> ck_size_count s' \<le> ck_size_count s + 1
         \<and> (\<not> ok \<longrightarrow> ck_size_count s' = ck_size_count s) \<and> 0 < ck_capacity s"
proof -
  from assms(1) obtain p1 p2 where p: "ck_get_hash1 mk s key = Inr p1"
    "ck_get_hash2 mk s key = Inr p2"
    by (auto simp add: ck_inner_insert_def split: sum.splits)
  have pos: "0 < ck_capacity s" using ck_get_hash1_Inr [OF p(1)] by simp
  note put1 = ck_inv_put1 [OF assms(2), of "(key, val)" p1]
  note put2 = ck_inv_put2 [OF assms(2), of "(key, val)" p2]
  from assms(1) p have rng: "p1 < length (ck_table1 s)" "p2 < length (ck_table2 s)"
    by (auto simp add: ck_inner_insert_def split: if_splits)
  consider (upd1) "holds_key (ck_table1 s ! p1) key"
    | (upd2) "\<not> holds_key (ck_table1 s ! p1) key" "holds_key (ck_table2 s ! p2) key"
    | (new1) "\<not> holds_key (ck_table1 s ! p1) key" "\<not> holds_key (ck_table2 s ! p2) key"
        "ck_table1 s ! p1 = None"
    | (new2) "\<not> holds_key (ck_table1 s ! p1) key" "\<not> holds_key (ck_table2 s ! p2) key"
        "ck_table1 s ! p1 \<noteq> None" "ck_table2 s ! p2 = None"
    | (walk) "\<not> holds_key (ck_table1 s ! p1) key" "\<not> holds_key (ck_table2 s ! p2) key"
        "ck_table1 s ! p1 \<noteq> None" "ck_table2 s ! p2 \<noteq> None"
    by blast
  then have "ck_inv mk s' \<and> ck_same_shape s s' \<and> ck_size_count s' \<le> ck_size_count s + 1
         \<and> (\<not> ok \<longrightarrow> ck_size_count s' = ck_size_count s)"
  proof cases
    case upd1
    with assms(1) p rng have "ok" "s' = s\<lparr>ck_table1 := (ck_table1 s)[p1 := Some (key, val)]\<rparr>"
      by (simp_all add: ck_inner_insert_def)
    with put1(1) p(1) holds_key_not_None [OF upd1] show ?thesis
      by (simp add: ck_same_shape_def)
  next
    case upd2
    with assms(1) p rng have "ok" "s' = s\<lparr>ck_table2 := (ck_table2 s)[p2 := Some (key, val)]\<rparr>"
      by (simp_all add: ck_inner_insert_def)
    with put2(1) p(2) holds_key_not_None [OF upd2(2)] show ?thesis
      by (simp add: ck_same_shape_def)
  next
    case new1
    with assms(1) p rng have "ok" "s' = s\<lparr>ck_table1 := (ck_table1 s)[p1 := Some (key, val)],
        ck_size_count := ck_size_count s + 1\<rparr>"
      by (simp_all add: ck_inner_insert_def)
    with put1(2) p(1) new1(3) show ?thesis
      by (simp add: ck_same_shape_def)
  next
    case new2
    with assms(1) p rng have "ok" "s' = s\<lparr>ck_table2 := (ck_table2 s)[p2 := Some (key, val)],
        ck_size_count := ck_size_count s + 1\<rparr>"
      by (simp_all add: ck_inner_insert_def)
    with put2(2) p(2) new2(4) show ?thesis
      by (simp add: ck_same_shape_def)
  next
    case walk
    with assms(1) p rng
    have "eviction_walk mk s (ck_capacity s) (key, val) True = Inr (ok, s')"
      by (simp add: ck_inner_insert_def)
    from eviction_walk_inv [OF this assms(2)] show ?thesis .
  qed
  with pos show ?thesis by simp
qed

lemma ck_reinsert_inv:
  assumes "ck_reinsert mk entry s = Inr s'" "ck_inv mk s"
  shows "ck_inv mk s' \<and> ck_same_shape s s'
         \<and> ck_size_count s' \<le> ck_size_count s + (if entry \<noteq> None then 1 else 0)"
proof (cases entry)
  case None
  with assms show ?thesis by (simp add: ck_reinsert_def ck_same_shape_def)
next
  case (Some e)
  obtain k v where e: "e = (k, v)" by (cases e)
  with Some assms(1) obtain ok where "ck_inner_insert mk s k v = Inr (ok, s')"
    by (auto simp add: ck_reinsert_def split: sum.splits)
  from ck_inner_insert_inv [OF this assms(2)] Some show ?thesis by simp
qed

lemma ck_same_shape_trans: "ck_same_shape s t \<Longrightarrow> ck_same_shape t u \<Longrightarrow> ck_same_shape s u"
  by (simp add: ck_same_shape_def)

lemma ck_reinsert_all_inv:
  assumes "foldE (ck_reinsert mk) xs s = Inr s'" "ck_inv mk s"
  shows "ck_inv mk s' \<and> ck_same_shape s s'
         \<and> ck_size_count s' \<le> ck_size_count s + length (filter (\<lambda>e. e \<noteq> None) xs)"
  using assms
proof (induction xs arbitrary: s)
  case Nil
  then show ?case by (simp add: ck_same_shape_def)
next
  case (Cons x xs)
  from Cons.prems(1) obtain t where t: "ck_reinsert mk x s = Inr t"
    "foldE (ck_reinsert mk) xs t = Inr s'"
    by (auto split: sum.splits)
  note a = ck_reinsert_inv [OF t(1) Cons.prems(2)]
  then have "ck_inv mk t" by simp
  note b = Cons.IH [OF t(2) this]
  from a b ck_same_shape_trans [of s t s'] show ?case by auto
qed

lemma ck_rehash_inv:
  assumes "ck_rehash mk s = Inr s'" "ck_inv mk s"
  shows "ck_inv mk s'" "ck_capacity s' = 2 * ck_capacity s" "ck_size_count s' \<le> ck_size_count s"
proof -
  let ?s0 = "s\<lparr>ck_capacity := ck_capacity s * 2,
      ck_table1 := replicate (ck_capacity s * 2) None,
      ck_table2 := replicate (ck_capacity s * 2) None,
      ck_size_count := 0, ck_rng := ck_rng s + 1, ck_hasher1 := ck_rng s,
      ck_rng := ck_rng s + 1 + 1, ck_hasher2 := ck_rng s + 1\<rparr>"
  from assms(1) obtain t where t: "foldE (ck_reinsert mk) (ck_table1 s) ?s0 = Inr t"
    "foldE (ck_reinsert mk) (ck_table2 s) t = Inr s'"
    by (auto simp add: ck_rehash_def ck_create_hasher_def Let_def split: sum.splits)
  have inv0: "ck_inv mk ?s0" by (simp add: ck_inv_def ck_placed_replicate)
  note a = ck_reinsert_all_inv [OF t(1) inv0]
  then have "ck_inv mk t" by simp
  note b = ck_reinsert_all_inv [OF t(2) this]
  from b show "ck_inv mk s'" by simp
  from a b show "ck_capacity s' = 2 * ck_capacity s" by (simp add: ck_same_shape_def)
  from a b assms(2) show "ck_size_count s' \<le> ck_size_count s" by (simp add: ck_inv_def)
qed

lemma ck_insert_loop_inv:
  assumes "ck_insert_loop mk s key val attempts = Inr (s', a)" "ck_inv mk s"
  shows "ck_inv mk s' \<and> ck_capacity s \<le> ck_capacity s' \<and> 0 < ck_capacity s'
         \<and> (2 * (ck_size_count s + 1) \<le> ck_capacity s \<longrightarrow> 2 * ck_size_count s' \<le> ck_capacity s')"
  using assms
proof (induction mk s key val attempts rule: ck_insert_loop.induct)
  case (1 mk s key val attempts)
  from "1.prems"(1) obtain ok t where t: "ck_inner_insert mk s key val = Inr (ok, t)"
    by (subst (asm) ck_insert_loop.simps) (auto split: sum.splits)
  note ti = ck_inner_insert_inv [OF t "1.prems"(2)]
  show ?case
  proof (cases "\<not> ok \<and> attempts < MAX_REHASH_ATTEMPTS")
    case False
    with "1.prems"(1) t have "s' = t"
      by (subst (asm) ck_insert_loop.simps) auto
    with ti show ?thesis by (auto simp add: ck_same_shape_def)
  next
    case True
    with "1.prems"(1) t obtain u where u: "ck_rehash mk t = Inr u"
      "ck_insert_loop mk u key val (attempts + 1) = Inr (s', a)"
      by (subst (asm) ck_insert_loop.simps) (auto split: sum.splits)
    from ti have tinv: "ck_inv mk t" by simp
    note ui = ck_rehash_inv [OF u(1) tinv]
    from ti True have same: "ck_size_count t = ck_size_count s" "ck_capacity t = ck_capacity s"
      by (simp_all add: ck_same_shape_def)
    with ui have load: "2 * (ck_size_count s + 1) \<le> ck_capacity s
        \<Longrightarrow> 2 * (ck_size_count u + 1) \<le> ck_capacity u"
      and cap: "ck_capacity s \<le> ck_capacity u"
      by simp_all
    have "ck_inv mk s' \<and> ck_capacity u \<le> ck_capacity s' \<and> 0 < ck_capacity s'
         \<and> (2 * (ck_size_count u + 1) \<le> ck_capacity u \<longrightarrow> 2 * ck_size_count s' \<le> ck_capacity s')"
      by (rule "1.IH" [OF t refl True u(1) u(2) ui(1)])
    with cap load show ?thesis by auto
  qed
qed

lemma ck_insert_inv:
  assumes "ck_insert mk s key val = Inr s'" "ck_inv mk s"
  shows "ck_inv mk s'"
    and "ck_capacity s \<le> ck_capacity s'"
    and "0 < ck_capacity s'"
    and "2 * ck_size_count s \<le> ck_capacity s \<Longrightarrow> 2 * ck_size_count s' \<le> ck_capacity s'"
proof -
  let ?t = "if 2 * (ck_size_count s + 1) > ck_capacity s then ck_rehash mk s else Inr s"
  from assms(1) obtain t a where t: "?t = Inr t"
    "ck_insert_loop mk t key val 0 = Inr (s', a)"
    by (auto simp add: ck_insert_def split: sum.splits if_splits)
  from t(2) obtain ok u where u: "ck_inner_insert mk t key val = Inr (ok, u)"
    by (subst (asm) ck_insert_loop.simps) (auto split: sum.splits)
  have tinv: "ck_inv mk t" and tcap: "ck_capacity s \<le> ck_capacity t"
    using t(1) assms(2) ck_rehash_inv(1,2) [of mk s t] by (auto split: if_splits)
  from ck_inner_insert_inv [OF u tinv] have tpos: "0 < ck_capacity t" by simp
  note loop = ck_insert_loop_inv [OF t(2) tinv]
  have tload: "2 * (ck_size_count t + 1) \<le> ck_capacity t" if l: "2 * ck_size_count s \<le> ck_capacity s"
  proof (cases "2 * (ck_size_count s + 1) > ck_capacity s")
    case False
    with t(1) show ?thesis by simp
  next
    case True
    with t(1) have r: "ck_rehash mk s = Inr t" by simp
    note ri = ck_rehash_inv(2,3) [OF r assms(2)]
    show ?thesis
    proof (cases "ck_capacity s = 1")
      case True
      with l have "ck_size_count s = 0" by simp
      with True ri show ?thesis by simp
    next
      case False
      with tpos ri(1) have "2 \<le> ck_capacity s" by simp
      with l ri show ?thesis by simp
    qed
  qed
  show "2 * ck_size_count s' \<le> ck_capacity s'" if "2 * ck_size_count s \<le> ck_capacity s"
    using loop tload [OF that] by simp
  show "ck_inv mk s'" "ck_capacity s \<le> ck_capacity s'" "0 < ck_capacity s'"
    using loop tcap by simp_all
qed

lemma ck_remove_inv:
  assumes "ck_remove mk s key = Inr (s', r)" "ck_inv mk s"
  shows "ck_inv mk s' \<and> ck_capacity s' = ck_capacity s \<and> ck_size_count s' \<le> ck_size_count s"
proof -
  from assms(1) obtain p1 p2 where p: "ck_get_hash1 mk s key = Inr p1"
    "ck_get_hash2 mk s key = Inr p2" "p1 < length (ck_table1 s)" "p2 < length (ck_table2 s)"
    by (auto simp add: ck_remove_def split: sum.splits if_splits)
  note c1 = length_filter_update [OF p(3), of "\<lambda>e. e \<noteq> None" None]
  note c2 = length_filter_update [OF p(4), of "\<lambda>e. e \<noteq> None" None]
  consider (one) "holds_key (ck_table1 s ! p1) key"
    | (two) "\<not> holds_key (ck_table1 s ! p1) key" "holds_key (ck_table2 s ! p2) key"
    | (none) "\<not> holds_key (ck_table1 s ! p1) key" "\<not> holds_key (ck_table2 s ! p2) key"
    by blast
  then show ?thesis
  proof cases
    case one
    with assms(1) p have s': "s' = s\<lparr>ck_table1 := (ck_table1 s)[p1 := None],
        ck_size_count := ck_size_count s - 1\<rparr>"
      by (simp add: ck_remove_def)
    from c1 holds_key_not_None [OF one] assms(2)
      ck_placed_erase [of "mk (ck_hasher1 s)" "ck_capacity s" "ck_table1 s" p1]
    show ?thesis by (simp add: s' ck_inv_def)
  next
    case two
    with assms(1) p have s': "s' = s\<lparr>ck_table2 := (ck_table2 s)[p2 := None],
        ck_size_count := ck_size_count s - 1\<rparr>"
      by (simp add: ck_remove_def)
    from c2 holds_key_not_None [OF two(2)] assms(2)
      ck_placed_erase [of "mk (ck_hasher2 s)" "ck_capacity s" "ck_table2 s" p2]
    show ?thesis by (simp add: s' ck_inv_def)
  next
    case none
    with assms p show ?thesis by (simp add: ck_remove_def)
  qed
qed

lemma ck_clear_inv:
  assumes "ck_inv mk s"
  shows "ck_inv mk (ck_clear s) \<and> ck_capacity (ck_clear s) = ck_capacity s
         \<and> ck_size_count (ck_clear s) = 0"
proof -
  have "filter (\<lambda>e. e \<noteq> None) (map (\<lambda>entry. None) xs) = []" for xs :: "('a \<times> 'b) option list"
    by (induction xs) simp_all
  moreover have "ck_placed (mk (ck_hasher1 s)) (ck_capacity s) (map (\<lambda>entry. None) (ck_table1 s))"
    "ck_placed (mk (ck_hasher2 s)) (ck_capacity s) (map (\<lambda>entry. None) (ck_table2 s))"
    by (simp_all add: ck_placed_def)
  ultimately show ?thesis using assms by (simp add: ck_clear_def ck_inv_def)
qed

lemma ck_index_cases:
  assumes "ck_index mk dflt s key = Inr (s', v)"
  shows "s' = s \<or> ck_insert mk s key dflt = Inr s'"
  using assms
  by (auto simp add: ck_index_def split: sum.splits if_splits option.splits)

lemma ck_apply_cases:
  assumes "ck_apply mk dflt op s = Inr s'"
  obtains (insert) key val where "ck_insert mk s key val = Inr s'"
    | (remove) key r where "ck_remove mk s key = Inr (s', r)"
    | (clear) "s' = ck_clear s"
    | (same) "s' = s"
proof (cases op)
  case (OpInsert key val)
  with assms insert show ?thesis by (simp add: ck_apply_def)
next
  case (OpRemove key)
  with assms remove show ?thesis by (auto simp add: ck_apply_def split: sum.splits)
next
  case OpClear
  with assms clear show ?thesis by (simp add: ck_apply_def)
next
  case (OpIndex key)
  with assms obtain v where "ck_index mk dflt s key = Inr (s', v)"
    by (auto simp add: ck_apply_def split: sum.splits)
  from ck_index_cases [OF this] insert same show ?thesis by blast
qed

lemma ck_new_inv: "ck_inv mk (ck_new c) \<and> ck_capacity (ck_new c) = c \<and> ck_size_count (ck_new c) = 0"
  by (simp add: ck_new_def ck_create_hasher_def ck_inv_def ck_placed_replicate Let_def)

lemma ck_reachable_inv:
  assumes "ck_reachable mk dflt c s"
  shows "ck_inv mk s \<and> (0 < c \<longrightarrow> 0 < ck_capacity s \<and> 2 * ck_size_count s \<le> ck_capacity s)"
  using assms
proof (induction rule: ck_reachable.induct)
  case ck_reach_new
  show ?case by (simp add: ck_new_inv)
next
  case (ck_reach_step s op s')
  from ck_reach_step.hyps(2) show ?case
  proof (cases rule: ck_apply_cases)
    case (insert key val)
    from ck_insert_inv [OF insert] ck_reach_step.IH show ?thesis by blast
  next
    case (remove key r)
    from ck_remove_inv [OF remove] ck_reach_step.IH show ?thesis by auto
  next
    case clear
    with ck_clear_inv [of mk s] ck_reach_step.IH show ?thesis by auto
  next
    case same
    with ck_reach_step.IH show ?thesis by simp
  qed
qed

section \<open>Proofs: calls that throw\<close>

lemma sc_call_inv:
  assumes "sc_call hasher dflt cl s = Returns s' \<or> sc_call hasher dflt cl s = Throws e s'"
    "sc_inv s"
  shows "sc_inv s' \<and> sc_capacity s \<le> sc_capacity s'"
proof -
  have ins: "sc_inv t \<and> sc_capacity s \<le> sc_capacity t"
    if "sc_insert_call hasher s key val = Returns t \<or> sc_insert_call hasher s key val = Throws e' t"
    for key val t e'
  proof -
    from that have "sc_insert hasher s key val = Inr t"
      by (auto simp add: sc_insert_call_def split: sum.splits)
    from sc_insert_inv(1,2) [OF this assms(2)] show ?thesis by simp
  qed
  show ?thesis
  proof (cases cl)
    case (CallInsert key val)
    with assms(1) ins [of key val s' e] show ?thesis by (simp add: sc_call_def)
  next
    case (CallRemove key)
    with assms(1) obtain r where "sc_remove hasher s key = Inr (s', r)"
      by (auto simp add: sc_call_def sc_remove_call_def split: sum.splits)
    from sc_remove_inv [OF this assms(2)] show ?thesis by simp
  next
    case CallClear
    with assms(1) have "s' = sc_clear s" by (auto simp add: sc_call_def)
    with sc_clear_inv [OF assms(2)] show ?thesis by simp
  next
    case (CallIndex key)
    with assms(1) have "s' = s
        \<or> sc_insert_call hasher s key dflt = Returns s'
        \<or> sc_insert_call hasher s key dflt = Throws e s'"
      by (auto simp add: sc_call_def sc_index_call_def
            split: sum.splits if_splits option.splits outcome.splits)
    with ins [of key dflt s' e] assms(2) show ?thesis by auto
  next
    case (CallAt key)
    with assms(1) have "s' = s"
      by (auto simp add: sc_call_def sc_at_call_def split: sum.splits if_splits)
    with assms(2) show ?thesis by simp
  qed
qed

lemma sc_observable_inv:
  assumes "sc_observable hasher dflt c s"
  shows "sc_inv s \<and> c \<le> sc_capacity s"
  using assms
proof (induction rule: sc_observable.induct)
  case sc_obs_new
  show ?case by (simp add: sc_new_def sc_inv_def)
next
  case (sc_obs_returns s cl s')
  from sc_call_inv [of hasher dflt cl s s' undefined] sc_obs_returns.hyps(2) sc_obs_returns.IH
  show ?case by simp
next
  case (sc_obs_throws s cl e s')
  from sc_call_inv [of hasher dflt cl s s' e] sc_obs_throws.hyps(2) sc_obs_throws.IH
  show ?case by simp
qed

lemma lp_inner_insert_call_inv:
  assumes "lp_inner_insert_call hasher s key val = Returns s'
         \<or> lp_inner_insert_call hasher s key val = Throws e s'"
    "lp_inv s"
  shows "lp_inv s' \<and> lp_capacity s' = lp_capacity s"
proof (cases "lp_inner_insert hasher s key val")
  case (Inl err)
  with assms show ?thesis
    by (auto simp add: lp_inner_insert_call_def split: if_splits)
next
  case (Inr t)
  with assms(1) have "s' = t" by (auto simp add: lp_inner_insert_call_def)
  with lp_inner_insert_inv(1,2) [OF Inr assms(2)] show ?thesis by simp
qed

lemma lp_reinsert_call_inv:
  assumes "lp_reinsert_call hasher xs s = Returns s' \<or> lp_reinsert_call hasher xs s = Throws e s'"
    "lp_inv s"
  shows "lp_inv s' \<and> lp_capacity s' = lp_capacity s"
  using assms
proof (induction xs arbitrary: s)
  case Nil
  then show ?case by auto
next
  case (Cons x xs)
  show ?case
  proof (cases x)
    case Empty
    with Cons.prems Cons.IH [of s] show ?thesis by simp
  next
    case Deleted
    with Cons.prems Cons.IH [of s] show ?thesis by simp
  next
    case (Occupied k v)
    show ?thesis
    proof (cases "lp_inner_insert_call hasher s k v")
      case (Returns t)
      from lp_inner_insert_call_inv [of hasher s k v t undefined] Returns Cons.prems(2)
      have t: "lp_inv t" "lp_capacity t = lp_capacity s" by simp_all
      from Cons.prems(1) Occupied Returns
      have "lp_reinsert_call hasher xs t = Returns s' \<or> lp_reinsert_call hasher xs t = Throws e s'"
        by simp
      from Cons.IH [OF this t(1)] t(2) show ?thesis by simp
    next
      case (Throws e' t)
      with Cons.prems(1) Occupied have "s' = t" by simp
      with lp_inner_insert_call_inv [of hasher s k v t e'] Throws Cons.prems(2)
      show ?thesis by simp
    next
      case Undefined_behaviour
      with Cons.prems(1) Occupied show ?thesis by simp
    qed
  qed
qed

lemma lp_rehash_call_inv:
  assumes "lp_rehash_call hasher s = Returns s' \<or> lp_rehash_call hasher s = Throws e s'"
    "lp_inv s"
  shows "lp_inv s' \<and> lp_capacity s' = 2 * lp_capacity s"
proof -
  let ?s0 = "s\<lparr>lp_capacity := lp_capacity s * 2,
               lp_table := replicate (lp_capacity s * 2) Empty,
               lp_size_count := 0, lp_deleted_count := 0\<rparr>"
  from assms(1) have "lp_reinsert_call hasher (lp_table s) ?s0 = Returns s'
      \<or> lp_reinsert_call hasher (lp_table s) ?s0 = Throws e s'"
    by (simp add: lp_rehash_call_def Let_def)
  moreover have "lp_inv ?s0" by (simp add: lp_inv_def)
  ultimately have "lp_inv s' \<and> lp_capacity s' = lp_capacity ?s0"
    by (rule lp_reinsert_call_inv)
  then show ?thesis by simp
qed

lemma lp_insert_call_inv:
  assumes "lp_insert_call hasher s key val = Returns s'
         \<or> lp_insert_call hasher s key val = Throws e s'"
    "lp_inv s"
  shows "lp_inv s' \<and> lp_capacity s \<le> lp_capacity s'"
proof (cases "lp_needs_rehash s")
  case False
  with assms(1) have "lp_inner_insert_call hasher s key val = Returns s'
      \<or> lp_inner_insert_call hasher s key val = Throws e s'"
    by (simp add: lp_insert_call_def)
  from lp_inner_insert_call_inv [OF this assms(2)] show ?thesis by simp
next
  case True
  show ?thesis
  proof (cases "lp_rehash_call hasher s")
    case (Returns t)
    from lp_rehash_call_inv [of hasher s t undefined] Returns assms(2)
    have t: "lp_inv t" "lp_capacity t = 2 * lp_capacity s" by simp_all
    from assms(1) True Returns
    have "lp_inner_insert_call hasher t key val = Returns s'
      \<or> lp_inner_insert_call hasher t key val = Throws e s'"
      by (simp add: lp_insert_call_def)
    from lp_inner_insert_call_inv [OF this t(1)] t(2) show ?thesis by simp
  next
    case (Throws e' t)
    with assms(1) True have "s' = t" by (simp add: lp_insert_call_def)
    with lp_rehash_call_inv [of hasher s t e'] Throws assms(2) show ?thesis by simp
  next
    case Undefined_behaviour
    with assms(1) True show ?thesis by (simp add: lp_insert_call_def)
  qed
qed

lemma lp_call_inv:
  assumes "lp_call hasher dflt cl s = Returns s' \<or> lp_call hasher dflt cl s = Throws e s'"
    "lp_inv s"
  shows "lp_inv s' \<and> lp_capacity s \<le> lp_capacity s'"
proof (cases cl)
  case (CallInsert key val)
  with assms(1) lp_insert_call_inv [of hasher s key val s' e] assms(2) show ?thesis
    by (simp add: lp_call_def)
next
  case (CallRemove key)
  with assms(1) obtain r where "lp_remove hasher s key = Inr (s', r)"
    by (auto simp add: lp_call_def lp_remove_call_def split: sum.splits)
  from lp_remove_inv [OF this assms(2)] show ?thesis by simp
next
  case CallClear
  with assms(1) have "s' = lp_clear s" by (auto simp add: lp_call_def)
  with lp_clear_inv [OF assms(2)] show ?thesis by simp
next
  case (CallIndex key)
  with assms(1) have "s' = s
      \<or> lp_insert_call hasher s key dflt = Returns s'
      \<or> lp_insert_call hasher s key dflt = Throws e s'"
    by (auto simp add: lp_call_def lp_index_call_def
          split: sum.splits if_splits Entry.splits outcome.splits)
  with lp_insert_call_inv [of hasher s key dflt s' e] assms(2) show ?thesis by auto
next
  case (CallAt key)
  with assms(1) have "s' = s"
    by (auto simp add: lp_call_def lp_at_call_def split: sum.splits if_splits)
  with assms(2) show ?thesis by simp
qed

lemma lp_observable_inv:
  assumes "lp_observable hasher dflt c s"
  shows "lp_inv s \<and> c \<le> lp_capacity s"
  using assms
proof (induction rule: lp_observable.induct)
  case lp_obs_new
  show ?case by (simp add: lp_new_def lp_inv_def)
next
  case (lp_obs_returns s cl s')
  from lp_call_inv [of hasher dflt cl s s' undefined] lp_obs_returns.hyps(2) lp_obs_returns.IH
  show ?case by simp
next
  case (lp_obs_throws s cl e s')
  from lp_call_inv [of hasher dflt cl s s' e] lp_obs_throws.hyps(2) lp_obs_throws.IH
  show ?case by simp
qed

lemma ck_insert_call_inv:
  assumes "ck_insert_call mk s key val = Returns s' \<or> ck_insert_call mk s key val = Throws e s'"
    "ck_inv mk s"
  shows "ck_inv mk s' \<and> ck_capacity s \<le> ck_capacity s'"
proof -
  let ?t = "if 2 * (ck_size_count s + 1) > ck_capacity s then ck_rehash mk s else Inr s"
  from assms(1) obtain t a where t: "?t = Inr t"
    "ck_insert_loop mk t key val 0 = Inr (s', a)"
    by (auto simp add: ck_insert_call_def split: sum.splits if_splits)
  have tinv: "ck_inv mk t" and tcap: "ck_capacity s \<le> ck_capacity t"
    using t(1) assms(2) ck_rehash_inv(1,2) [of mk s t] by (auto split: if_splits)
  from ck_insert_loop_inv [OF t(2) tinv] tcap show ?thesis by simp
qed

lemma ck_call_inv:
  assumes "ck_call mk dflt cl s = Returns s' \<or> ck_call mk dflt cl s = Throws e s'"
    "ck_inv mk s"
  shows "ck_inv mk s' \<and> ck_capacity s \<le> ck_capacity s'"
proof (cases cl)
  case (CallInsert key val)
  with assms(1) ck_insert_call_inv [of mk s key val s' e] assms(2) show ?thesis
    by (simp add: ck_call_def)
next
  case (CallRemove key)
  with assms(1) obtain r where "ck_remove mk s key = Inr (s', r)"
    by (auto simp add: ck_call_def ck_remove_call_def split: sum.splits)
  from ck_remove_inv [OF this assms(2)] show ?thesis by simp
next
  case CallClear
  with assms(1) have "s' = ck_clear s" by (auto simp add: ck_call_def)
  with ck_clear_inv [OF assms(2)] show ?thesis by simp
next
  case (CallIndex key)
  with assms(1) have "s' = s
      \<or> ck_insert_call mk s key dflt = Returns s'
      \<or> ck_insert_call mk s key dflt = Throws e s'"
    by (auto simp add: ck_call_def ck_index_call_def
          split: sum.splits if_splits option.splits outcome.splits)
  with ck_insert_call_inv [of mk s key dflt s' e] assms(2) show ?thesis by auto
next
  case (CallAt key)
  with assms(1) have "s' = s"
    by (auto simp add: ck_call_def ck_at_call_def split: sum.splits if_splits option.splits)
  with assms(2) show ?thesis by simp
qed

lemma ck_observable_inv:
  assumes "ck_observable mk dflt c s"
  shows "ck_inv mk s \<and> c \<le> ck_capacity s"
  using assms
proof (induction rule: ck_observable.induct)
  case ck_obs_new
  show ?case by (simp add: ck_new_inv)
next
  case (ck_obs_returns s cl s')
  from ck_call_inv [of mk dflt cl s s' undefined] ck_obs_returns.hyps(2) ck_obs_returns.IH
  show ?case by simp
next
  case (ck_obs_throws s cl e s')
  from ck_call_inv [of mk dflt cl s s' e] ck_obs_throws.hyps(2) ck_obs_throws.IH
  show ?case by simp
qed


lemma sc_apply_call:
  assumes "sc_apply hasher dflt op s = Inr s'"
  shows "\<exists>cl. sc_call hasher dflt cl s = Returns s'"
proof (cases op)
  case (OpInsert key val)
  with assms have "sc_call hasher dflt (CallInsert key val) s = Returns s'"
    by (simp add: sc_apply_def sc_call_def sc_insert_call_def)
  then show ?thesis ..
next
  case (OpRemove key)
  with assms have "sc_call hasher dflt (CallRemove key) s = Returns s'"
    by (auto simp add: sc_apply_def sc_call_def sc_remove_call_def split: sum.splits)
  then show ?thesis ..
next
  case OpClear
  with assms have "sc_call hasher dflt CallClear s = Returns s'"
    by (simp add: sc_apply_def sc_call_def)
  then show ?thesis ..
next
  case (OpIndex key)
  with assms have "sc_call hasher dflt (CallIndex key) s = Returns s'"
    by (auto simp add: sc_apply_def sc_call_def sc_index_def sc_index_call_def sc_insert_call_def
          split: sum.splits if_splits option.splits)
  then show ?thesis ..
qed

lemma sc_reachable_observable:
  assumes "sc_reachable hasher dflt c s"
  shows "sc_observable hasher dflt c s"
  using assms
proof (induction rule: sc_reachable.induct)
  case sc_reach_new
  show ?case by (rule sc_obs_new)
next
  case (sc_reach_step s op s')
  from sc_apply_call [OF sc_reach_step.hyps(2)] obtain cl
    where "sc_call hasher dflt cl s = Returns s'" ..
  with sc_reach_step.IH show ?case by (rule sc_obs_returns)
qed

lemma lp_reinsert_call_foldE:
  assumes "foldE (\<lambda>entry s. case entry of
                   Occupied k v \<Rightarrow> lp_inner_insert hasher s k v
                 | Empty \<Rightarrow> Inr s
                 | Deleted \<Rightarrow> Inr s) xs s = Inr s'"
  shows "lp_reinsert_call hasher xs s = Returns s'"
  using assms
proof (induction xs arbitrary: s)
  case Nil
  then show ?case by simp
next
  case (Cons x xs)
  show ?case
  proof (cases x)
    case Empty
    with Cons.prems Cons.IH [of s] show ?thesis by simp
  next
    case Deleted
    with Cons.prems Cons.IH [of s] show ?thesis by simp
  next
    case (Occupied k v)
    with Cons.prems obtain t where t: "lp_inner_insert hasher s k v = Inr t"
      "foldE (\<lambda>entry s. case entry of
                   Occupied k v \<Rightarrow> lp_inner_insert hasher s k v
                 | Empty \<Rightarrow> Inr s
                 | Deleted \<Rightarrow> Inr s) xs t = Inr s'"
      by (auto split: sum.splits)
    from Cons.IH [OF t(2)] t(1) Occupied show ?thesis
      by (simp add: lp_inner_insert_call_def)
  qed
qed

lemma lp_insert_call_Returns:
  assumes "lp_insert hasher s key val = Inr s'"
  shows "lp_insert_call hasher s key val = Returns s'"
proof -
  let ?t = "if lp_needs_rehash s then lp_rehash hasher s else Inr s"
  from assms obtain t where t: "?t = Inr t" "lp_inner_insert hasher t key val = Inr s'"
    by (auto simp add: lp_insert_def split: sum.splits)
  have "(if lp_needs_rehash s then lp_rehash_call hasher s else Returns s) = Returns t"
  proof (cases "lp_needs_rehash s")
    case False
    with t(1) show ?thesis by simp
  next
    case True
    with t(1) have "lp_rehash hasher s = Inr t" by simp
    then have "lp_rehash_call hasher s = Returns t"
      unfolding lp_rehash_def lp_rehash_call_def Let_def by (rule lp_reinsert_call_foldE)
    with True show ?thesis by simp
  qed
  with t(2) show ?thesis by (simp add: lp_insert_call_def lp_inner_insert_call_def)
qed

lemma lp_apply_call:
  assumes "lp_apply hasher dflt op s = Inr s'"
  shows "\<exists>cl. lp_call hasher dflt cl s = Returns s'"
proof (cases op)
  case (OpInsert key val)
  with assms have "lp_call hasher dflt (CallInsert key val) s = Returns s'"
    by (simp add: lp_apply_def lp_call_def lp_insert_call_Returns)
  then show ?thesis ..
next
  case (OpRemove key)
  with assms have "lp_call hasher dflt (CallRemove key) s = Returns s'"
    by (auto simp add: lp_apply_def lp_call_def lp_remove_call_def split: sum.splits)
  then show ?thesis ..
next
  case OpClear
  with assms have "lp_call hasher dflt CallClear s = Returns s'"
    by (simp add: lp_apply_def lp_call_def)
  then show ?thesis ..
next
  case (OpIndex key)
  with assms have "lp_call hasher dflt (CallIndex key) s = Returns s'"
    by (auto simp add: lp_apply_def lp_call_def lp_index_def lp_index_call_def
          lp_insert_call_Returns
          split: sum.splits if_splits Entry.splits)
  then show ?thesis ..
qed

lemma lp_reachable_observable:
  assumes "lp_reachable hasher dflt c s"
  shows "lp_observable hasher dflt c s"
  using assms
proof (induction rule: lp_reachable.induct)
  case lp_reach_new
  show ?case by (rule lp_obs_new)
next
  case (lp_reach_step s op s')
  from lp_apply_call [OF lp_reach_step.hyps(2)] obtain cl
    where "lp_call hasher dflt cl s = Returns s'" ..
  with lp_reach_step.IH show ?case by (rule lp_obs_returns)
qed

lemma ck_insert_call_Returns:
  assumes "ck_insert mk s key val = Inr s'"
  shows "ck_insert_call mk s key val = Returns s'"
  using assms
  by (auto simp add: ck_insert_def ck_insert_call_def split: sum.splits if_splits)

lemma ck_apply_call:
  assumes "ck_apply mk dflt op s = Inr s'"
  shows "\<exists>cl. ck_call mk dflt cl s = Returns s'"
proof (cases op)
  case (OpInsert key val)
  with assms have "ck_call mk dflt (CallInsert key val) s = Returns s'"
    by (simp add: ck_apply_def ck_call_def ck_insert_call_Returns)
  then show ?thesis ..
next
  case (OpRemove key)
  with assms have "ck_call mk dflt (CallRemove key) s = Returns s'"
    by (auto simp add: ck_apply_def ck_call_def ck_remove_call_def split: sum.splits)
  then show ?thesis ..
next
  case OpClear
  with assms have "ck_call mk dflt CallClear s = Returns s'"
    by (simp add: ck_apply_def ck_call_def)
  then show ?thesis ..
next
  case (OpIndex key)
  with assms have "ck_call mk dflt (CallIndex key) s = Returns s'"
    by (auto simp add: ck_apply_def ck_call_def ck_index_def ck_index_call_def
          ck_insert_call_Returns
          split: sum.splits if_splits option.splits)
  then show ?thesis ..
qed

lemma ck_reachable_observable:
  assumes "ck_reachable mk dflt c s"
  shows "ck_observable mk dflt c s"
  using assms
proof (induction rule: ck_reachable.induct)
  case ck_reach_new
  show ?case by (rule ck_obs_new)
next
  case (ck_reach_step s op s')
  from ck_apply_call [OF ck_reach_step.hyps(2)] obtain cl
    where "ck_call mk dflt cl s = Returns s'" ..
  with ck_reach_step.IH show ?case by (rule ck_obs_returns)
qed

text \<open>
  No call has undefined behaviour on a map of positive capacity that satisfies the
  invariant: no remainder by 0, no index outside a table.
\<close>

lemma foldE_defined:
  assumes "P s"
    and "\<And>x t. P t \<Longrightarrow> \<exists>t'. f x t = Inr t' \<and> P t'"
  shows "\<exists>s'. foldE f xs s = Inr s' \<and> P s'"
  using assms(1)
proof (induction xs arbitrary: s)
  case Nil
  then show ?case by simp
next
  case (Cons x xs)
  from assms(2) [OF Cons.prems] obtain t where t: "f x s = Inr t" "P t" by blast
  from Cons.IH [OF t(2)] t(1) show ?case by simp
qed

lemma sc_inner_insert_defined:
  assumes "sc_inv s" "0 < sc_capacity s"
  shows "\<exists>s'. sc_inner_insert hasher s key val = Inr s'"
proof -
  from assms have "unat (hasher key) mod sc_capacity s < length (sc_buckets s)"
    by (simp add: sc_inv_def)
  with assms(2) show ?thesis
    by (auto simp add: sc_inner_insert_def sc_get_bucket_index_def Let_def split: option.splits)
qed

lemma sc_resize_defined:
  assumes "sc_inv s" "0 < sc_capacity s"
  shows "\<exists>s'. sc_resize hasher s = Inr s'"
proof -
  let ?s0 = "s\<lparr>sc_capacity := sc_capacity s * 2,
               sc_buckets := replicate (sc_capacity s * 2) [], sc_size_count := 0\<rparr>"
  let ?inner = "\<lambda>entry t. sc_inner_insert hasher t (fst entry) (snd entry)"
  let ?P = "\<lambda>t. sc_inv t \<and> 0 < sc_capacity t"
  have inner: "\<exists>t'. ?inner x t = Inr t' \<and> ?P t'" if "?P t" for x t
  proof -
    from that sc_inner_insert_defined [of t hasher "fst x" "snd x"]
    obtain t' where t': "?inner x t = Inr t'" by auto
    from sc_inner_insert_inv [OF t'] that have "?P t'" by simp
    with t' show ?thesis by blast
  qed
  have outer: "\<exists>t'. foldE ?inner b t = Inr t' \<and> ?P t'" if "?P t" for b t
    using that inner by (rule foldE_defined [where P = ?P])
  have "?P ?s0" using assms by (simp add: sc_inv_def)
  then have "\<exists>s'. foldE (\<lambda>bucket. foldE ?inner bucket) (sc_buckets s) ?s0 = Inr s' \<and> ?P s'"
    using outer by (rule foldE_defined [where P = ?P])
  then show ?thesis by (auto simp add: sc_resize_def Let_def)
qed

lemma sc_insert_defined:
  assumes "sc_inv s" "0 < sc_capacity s"
  shows "\<exists>s'. sc_insert hasher s key val = Inr s'"
proof (cases "4 * (sc_size_count s + 1) > 3 * sc_capacity s")
  case False
  with sc_inner_insert_defined [OF assms, of hasher key val] show ?thesis
    by (simp add: sc_insert_def)
next
  case True
  from sc_resize_defined [OF assms, of hasher] obtain t where t: "sc_resize hasher s = Inr t" ..
  from sc_resize_inv [OF t assms(1)] assms(2) have "sc_inv t" "0 < sc_capacity t" by simp_all
  from sc_inner_insert_defined [OF this, of hasher key val] True t show ?thesis
    by (simp add: sc_insert_def)
qed

lemma sc_call_defined:
  assumes "sc_inv s" "0 < sc_capacity s"
  shows "sc_call hasher dflt cl s \<noteq> Undefined_behaviour"
proof -
  have idx: "sc_get_bucket_index hasher t key = Inr (unat (hasher key) mod sc_capacity t)"
    "\<not> length (sc_buckets t) \<le> unat (hasher key) mod sc_capacity t"
    if "sc_inv t" "0 < sc_capacity t" for t key
    using that mod_less_divisor [of "sc_capacity t" "unat (hasher key)"]
    by (simp_all add: sc_get_bucket_index_def sc_inv_def not_le)
  show ?thesis
  proof (cases cl)
    case (CallInsert key val)
    with sc_insert_defined [OF assms, of hasher key val] show ?thesis
      by (auto simp add: sc_call_def sc_insert_call_def)
  next
    case (CallRemove key)
    with idx [OF assms, of key] show ?thesis
      by (simp add: sc_call_def sc_remove_call_def sc_remove_def split: option.splits)
  next
    case CallClear
    then show ?thesis by (simp add: sc_call_def)
  next
    case (CallIndex key)
    from sc_insert_defined [OF assms, of hasher key dflt]
    obtain t where t: "sc_insert hasher s key dflt = Inr t" ..
    from sc_insert_inv(1,3) [OF t assms(1)] have "sc_inv t" "0 < sc_capacity t" .
    from idx [OF this, of key] idx [OF assms, of key] t CallIndex show ?thesis
      by (simp add: sc_call_def sc_index_call_def sc_insert_call_def split: option.splits)
  next
    case (CallAt key)
    with idx [OF assms, of key] show ?thesis
      by (simp add: sc_call_def sc_at_call_def sc_at_def split: option.splits)
  qed
qed

lemma insert_probe_defined:
  assumes "index < capacity" "original_index < capacity" "capacity \<le> length table"
  shows "insert_probe table capacity key original_index index \<noteq> Inl Undefined
       \<and> insert_probe table capacity key original_index index \<noteq> Inl KeyNotFound
       \<and> insert_probe table capacity key original_index index \<noteq> Inl CapacityExhausted
       \<and> insert_probe table capacity key original_index index \<noteq> Inl InternalError"
  using assms
proof (induction table capacity key original_index index rule: insert_probe.induct)
  case (1 table capacity key original_index index)
  let ?next = "(index + 1) mod capacity"
  note eq = insert_probe.simps [of table capacity key original_index index]
  from "1.prems" have guard: "index < capacity \<and> original_index < capacity \<and> index < length table"
    by simp
  show ?case
  proof (cases "table ! index")
    case Empty
    with guard show ?thesis by (simp add: eq)
  next
    case Deleted
    with guard show ?thesis by (simp add: eq)
  next
    case (Occupied k v)
    show ?thesis
    proof (cases "k = key")
      case True
      with guard Occupied show ?thesis by (simp add: eq)
    next
      case neq: False
      show ?thesis
      proof (cases "?next \<noteq> original_index")
        case False
        with guard Occupied neq show ?thesis by (simp add: eq Let_def)
      next
        case True
        from "1.prems"(1) have "?next < capacity" by simp
        from "1.IH" [OF guard Occupied neq refl True this "1.prems"(2,3)]
        show ?thesis using guard Occupied neq True by (simp add: eq Let_def)
      qed
    qed
  qed
qed

lemma lookup_probe_defined:
  assumes "index < capacity" "original_index < capacity" "capacity \<le> length table"
  shows "\<exists>j. lookup_probe table capacity key original_index index = Inr j"
  using assms
proof (induction table capacity key original_index index rule: lookup_probe.induct)
  case (1 table capacity key original_index index)
  let ?next = "(index + 1) mod capacity"
  note eq = lookup_probe.simps [of table capacity key original_index index]
  from "1.prems" have guard: "index < capacity \<and> original_index < capacity \<and> index < length table"
    by simp
  from "1.prems"(1) have nx: "?next < capacity" by simp
  show ?case
  proof (cases "table ! index")
    case Empty
    with guard show ?thesis by (simp add: eq)
  next
    case Deleted
    show ?thesis
    proof (cases "?next \<noteq> original_index")
      case False
      with guard Deleted show ?thesis by (simp add: eq Let_def)
    next
      case True
      from "1.IH"(2) [OF guard Deleted refl True nx "1.prems"(2,3)]
      show ?thesis using guard Deleted True by (simp add: eq Let_def)
    qed
  next
    case (Occupied k v)
    show ?thesis
    proof (cases "k = key")
      case True
      with guard Occupied show ?thesis by (simp add: eq)
    next
      case neq: False
      show ?thesis
      proof (cases "?next \<noteq> original_index")
        case False
        with guard Occupied neq show ?thesis by (simp add: eq Let_def)
      next
        case True
        from "1.IH"(1) [OF guard Occupied neq refl True nx "1.prems"(2,3)]
        show ?thesis using guard Occupied neq True by (simp add: eq Let_def)
      qed
    qed
  qed
qed

lemma lp_find_slot_for_lookup_defined:
  assumes "lp_inv s" "0 < lp_capacity s"
  shows "\<exists>j. lp_find_slot_for_lookup hasher s key = Inr j
           \<and> (j < lp_capacity s \<longrightarrow> (\<exists>k v. lp_table s ! j = Occupied k v))"
proof -
  from assms have "unat (hasher key) mod lp_capacity s < lp_capacity s"
    "lp_capacity s \<le> length (lp_table s)"
    by (simp_all add: lp_inv_def)
  from lookup_probe_defined [OF this(1) this(1) this(2), of key] assms(2)
  obtain j where j: "lp_find_slot_for_lookup hasher s key = Inr j"
    by (auto simp add: lp_find_slot_for_lookup_def lp_get_hash_def)
  have "\<exists>k v. lp_table s ! j = Occupied k v" if "j < lp_capacity s"
  proof -
    from lp_find_slot_for_lookup_Inr(2) [OF j] that
    have "occupied_with (lp_table s ! j) key" by auto
    then show ?thesis by (cases "lp_table s ! j") auto
  qed
  with j show ?thesis by blast
qed

lemma lp_inner_insert_call_defined:
  assumes "lp_inv s" "0 < lp_capacity s"
  shows "lp_inner_insert_call hasher s key val \<noteq> Undefined_behaviour"
proof -
  from assms have "unat (hasher key) mod lp_capacity s < lp_capacity s"
    "lp_capacity s \<le> length (lp_table s)"
    by (simp_all add: lp_inv_def)
  note d = insert_probe_defined [OF this(1) this(1) this(2), of key]
  show ?thesis
  proof (cases "lp_find_slot_for_insert hasher s key")
    case (Inr j)
    then show ?thesis
      by (simp add: lp_inner_insert_call_def lp_inner_insert_def Let_def)
  next
    case (Inl e)
    with d assms(2) have "e = TableFull"
      by (cases e) (auto simp add: lp_find_slot_for_insert_def lp_get_hash_def)
    with Inl show ?thesis
      by (simp add: lp_inner_insert_call_def lp_inner_insert_def)
  qed
qed

lemma lp_reinsert_call_defined:
  assumes "lp_inv s" "0 < lp_capacity s"
  shows "lp_reinsert_call hasher xs s \<noteq> Undefined_behaviour"
  using assms
proof (induction xs arbitrary: s)
  case Nil
  show ?case by simp
next
  case (Cons x xs)
  show ?case
  proof (cases x)
    case Empty
    with Cons show ?thesis by simp
  next
    case Deleted
    with Cons show ?thesis by simp
  next
    case (Occupied k v)
    show ?thesis
    proof (cases "lp_inner_insert_call hasher s k v")
      case (Returns t)
      from lp_inner_insert_call_inv [of hasher s k v t undefined] Returns Cons.prems
      have "lp_inv t" "0 < lp_capacity t" by simp_all
      from Cons.IH [OF this] Occupied Returns show ?thesis by simp
    next
      case (Throws e t)
      with Occupied show ?thesis by simp
    next
      case Undefined_behaviour
      with lp_inner_insert_call_defined [OF Cons.prems, of hasher k v] show ?thesis by simp
    qed
  qed
qed

lemma lp_insert_call_defined:
  assumes "lp_inv s" "0 < lp_capacity s"
  shows "lp_insert_call hasher s key val \<noteq> Undefined_behaviour"
proof (cases "lp_needs_rehash s")
  case False
  with lp_inner_insert_call_defined [OF assms, of hasher key val] show ?thesis
    by (simp add: lp_insert_call_def)
next
  case True
  let ?s0 = "s\<lparr>lp_capacity := lp_capacity s * 2,
               lp_table := replicate (lp_capacity s * 2) Empty,
               lp_size_count := 0, lp_deleted_count := 0\<rparr>"
  have "lp_inv ?s0" "0 < lp_capacity ?s0" using assms(2) by (simp_all add: lp_inv_def)
  from lp_reinsert_call_defined [OF this, of hasher "lp_table s"]
  have r: "lp_rehash_call hasher s \<noteq> Undefined_behaviour"
    by (simp add: lp_rehash_call_def Let_def)
  show ?thesis
  proof (cases "lp_rehash_call hasher s")
    case (Returns t)
    from lp_rehash_call_inv [of hasher s t undefined] Returns assms
    have "lp_inv t" "0 < lp_capacity t" by simp_all
    from lp_inner_insert_call_defined [OF this, of hasher key val] True Returns show ?thesis
      by (simp add: lp_insert_call_def)
  next
    case (Throws e t)
    with True show ?thesis by (simp add: lp_insert_call_def)
  next
    case Undefined_behaviour
    with r show ?thesis by simp
  qed
qed

lemma lp_call_defined:
  assumes "lp_inv s" "0 < lp_capacity s"
  shows "lp_call hasher dflt cl s \<noteq> Undefined_behaviour"
proof -
  from lp_find_slot_for_lookup_defined [OF assms]
  have look: "\<exists>j. lp_find_slot_for_lookup hasher s key = Inr j
           \<and> (j < lp_capacity s \<longrightarrow> (\<exists>k v. lp_table s ! j = Occupied k v))" for key .
  show ?thesis
  proof (cases cl)
    case (CallInsert key val)
    with lp_insert_call_defined [OF assms, of hasher key val] show ?thesis
      by (simp add: lp_call_def)
  next
    case (CallRemove key)
    from look [of key] obtain j where j: "lp_find_slot_for_lookup hasher s key = Inr j"
      "j < lp_capacity s \<longrightarrow> (\<exists>k v. lp_table s ! j = Occupied k v)" by blast
    show ?thesis
    proof (cases "j < lp_capacity s")
      case True
      with j obtain k v where "lp_table s ! j = Occupied k v" by blast
      with j True CallRemove show ?thesis
        by (simp add: lp_call_def lp_remove_call_def lp_remove_def)
    next
      case False
      with j CallRemove show ?thesis
        by (simp add: lp_call_def lp_remove_call_def lp_remove_def)
    qed
  next
    case CallClear
    then show ?thesis by (simp add: lp_call_def)
  next
    case (CallAt key)
    from look [of key] obtain j where j: "lp_find_slot_for_lookup hasher s key = Inr j"
      "j < lp_capacity s \<longrightarrow> (\<exists>k v. lp_table s ! j = Occupied k v)" by blast
    show ?thesis
    proof (cases "j < lp_capacity s")
      case True
      with j obtain k v where "lp_table s ! j = Occupied k v" by blast
      with j True CallAt show ?thesis
        by (simp add: lp_call_def lp_at_call_def lp_at_def)
    next
      case False
      with j CallAt show ?thesis
        by (simp add: lp_call_def lp_at_call_def lp_at_def)
    qed
  next
    case (CallIndex key)
    from look [of key] obtain j where j: "lp_find_slot_for_lookup hasher s key = Inr j"
      "j < lp_capacity s \<longrightarrow> (\<exists>k v. lp_table s ! j = Occupied k v)" by blast
    show ?thesis
    proof (cases "j < lp_capacity s")
      case True
      with j obtain k v where "lp_table s ! j = Occupied k v" by blast
      with j True CallIndex show ?thesis by (simp add: lp_call_def lp_index_call_def)
    next
      case False
      show ?thesis
      proof (cases "lp_insert_call hasher s key dflt")
        case Undefined_behaviour
        with lp_insert_call_defined [OF assms, of hasher key dflt] show ?thesis by simp
      next
        case (Throws e t)
        with j False CallIndex show ?thesis by (simp add: lp_call_def lp_index_call_def)
      next
        case (Returns t)
        from lp_insert_call_inv [of hasher s key dflt t undefined] Returns assms
        have "lp_inv t" "0 < lp_capacity t" by simp_all
        from lp_find_slot_for_lookup_defined [OF this, of hasher key]
        obtain i where i: "lp_find_slot_for_lookup hasher t key = Inr i"
          "i < lp_capacity t \<longrightarrow> (\<exists>k v. lp_table t ! i = Occupied k v)" by blast
        show ?thesis
        proof (cases "i < lp_capacity t")
          case True
          with i obtain k v where "lp_table t ! i = Occupied k v" by blast
          with i True j False CallIndex Returns show ?thesis
            by (simp add: lp_call_def lp_index_call_def)
        next
          case nf: False
          with i j False CallIndex Returns show ?thesis
            by (simp add: lp_call_def lp_index_call_def)
        qed
      qed
    qed
  qed
qed

lemma eviction_walk_defined:
  assumes "length (ck_table1 s) = ck_capacity s" "length (ck_table2 s) = ck_capacity s"
    "0 < ck_capacity s"
  shows "\<exists>r. eviction_walk mk s n e b = Inr r"
  using assms
proof (induction n arbitrary: s e b)
  case 0
  show ?case by auto
next
  case (Suc n)
  let ?p1 = "unat (mk (ck_hasher1 s) (fst e)) mod ck_capacity s"
  let ?p2 = "unat (mk (ck_hasher2 s) (fst e)) mod ck_capacity s"
  from Suc.prems have p: "\<not> length (ck_table1 s) \<le> ?p1" "\<not> length (ck_table2 s) \<le> ?p2"
    using mod_less_divisor [of "ck_capacity s"] by (simp_all add: not_le)
  show ?case
  proof (cases b)
    case True
    show ?thesis
    proof (cases "ck_table1 s ! ?p1")
      case None
      with True p Suc.prems(3) show ?thesis by (auto simp add: ck_get_hash1_def)
    next
      case (Some occupant)
      let ?s = "s\<lparr>ck_table1 := (ck_table1 s)[?p1 := Some e]\<rparr>"
      have "\<exists>r. eviction_walk mk ?s n occupant False = Inr r"
        by (rule Suc.IH) (use Suc.prems in simp_all)
      with Some True p Suc.prems(3) show ?thesis by (simp add: ck_get_hash1_def)
    qed
  next
    case False
    show ?thesis
    proof (cases "ck_table2 s ! ?p2")
      case None
      with False p Suc.prems(3) show ?thesis by (auto simp add: ck_get_hash2_def)
    next
      case (Some occupant)
      let ?s = "s\<lparr>ck_table2 := (ck_table2 s)[?p2 := Some e]\<rparr>"
      have "\<exists>r. eviction_walk mk ?s n occupant True = Inr r"
        by (rule Suc.IH) (use Suc.prems in simp_all)
      with Some False p Suc.prems(3) show ?thesis by (simp add: ck_get_hash2_def)
    qed
  qed
qed

lemma ck_inner_insert_defined:
  assumes "ck_inv mk s" "0 < ck_capacity s"
  shows "\<exists>ok s'. ck_inner_insert mk s key val = Inr (ok, s')"
proof -
  let ?p1 = "unat (mk (ck_hasher1 s) key) mod ck_capacity s"
  let ?p2 = "unat (mk (ck_hasher2 s) key) mod ck_capacity s"
  from assms have len: "length (ck_table1 s) = ck_capacity s" "length (ck_table2 s) = ck_capacity s"
    by (simp_all add: ck_inv_def)
  with assms(2) have p: "\<not> (length (ck_table1 s) \<le> ?p1 \<or> length (ck_table2 s) \<le> ?p2)"
    using mod_less_divisor [of "ck_capacity s"] by (simp add: not_le)
  from eviction_walk_defined [OF len assms(2), of mk "ck_capacity s" "(key, val)" True]
  obtain r where "eviction_walk mk s (ck_capacity s) (key, val) True = Inr r" ..
  with p assms(2) have "\<exists>r. ck_inner_insert mk s key val = Inr r"
    by (auto simp add: ck_inner_insert_def ck_get_hash1_def ck_get_hash2_def)
  then show ?thesis by auto
qed

lemma ck_reinsert_defined:
  assumes "ck_inv mk t \<and> 0 < ck_capacity t"
  shows "\<exists>t'. ck_reinsert mk x t = Inr t' \<and> (ck_inv mk t' \<and> 0 < ck_capacity t')"
proof -
  have "\<exists>t'. ck_reinsert mk x t = Inr t'"
  proof (cases x)
    case None
    then show ?thesis by (simp add: ck_reinsert_def)
  next
    case (Some e)
    obtain k v where e: "e = (k, v)" by (cases e)
    from assms ck_inner_insert_defined [of mk t k v]
    obtain ok t' where "ck_inner_insert mk t k v = Inr (ok, t')" by blast
    with Some e show ?thesis by (simp add: ck_reinsert_def)
  qed
  then obtain t' where t': "ck_reinsert mk x t = Inr t'" ..
  from ck_reinsert_inv [OF t'] assms have "ck_inv mk t' \<and> 0 < ck_capacity t'"
    by (simp add: ck_same_shape_def)
  with t' show ?thesis by blast
qed

lemma ck_rehash_defined:
  assumes "ck_inv mk s" "0 < ck_capacity s"
  shows "\<exists>s'. ck_rehash mk s = Inr s'"
proof -
  let ?s0 = "s\<lparr>ck_capacity := ck_capacity s * 2,
      ck_table1 := replicate (ck_capacity s * 2) None,
      ck_table2 := replicate (ck_capacity s * 2) None,
      ck_size_count := 0, ck_rng := ck_rng s + 1, ck_hasher1 := ck_rng s,
      ck_rng := ck_rng s + 1 + 1, ck_hasher2 := ck_rng s + 1\<rparr>"
  let ?P = "\<lambda>t. ck_inv mk t \<and> 0 < ck_capacity t"
  have "?P ?s0" using assms(2) by (simp add: ck_inv_def ck_placed_replicate)
  then have "\<exists>t. foldE (ck_reinsert mk) (ck_table1 s) ?s0 = Inr t \<and> ?P t"
    using ck_reinsert_defined by (rule foldE_defined [where P = ?P])
  then obtain t where t: "foldE (ck_reinsert mk) (ck_table1 s) ?s0 = Inr t" "?P t" by blast
  from t(2) have "\<exists>u. foldE (ck_reinsert mk) (ck_table2 s) t = Inr u \<and> ?P u"
    using ck_reinsert_defined by (rule foldE_defined [where P = ?P])
  with t(1) show ?thesis
    by (auto simp add: ck_rehash_def ck_create_hasher_def Let_def)
qed

lemma ck_insert_loop_defined:
  assumes "ck_inv mk s" "0 < ck_capacity s"
  shows "\<exists>r. ck_insert_loop mk s key val attempts = Inr r"
  using assms
proof (induction mk s key val attempts rule: ck_insert_loop.induct)
  case (1 mk s key val attempts)
  note eq = ck_insert_loop.simps [of mk s key val attempts]
  from ck_inner_insert_defined [OF "1.prems", of key val]
  obtain ok t where t: "ck_inner_insert mk s key val = Inr (ok, t)" by blast
  from ck_inner_insert_inv [OF t "1.prems"(1)] "1.prems"(2)
  have ti: "ck_inv mk t" "0 < ck_capacity t" by (simp_all add: ck_same_shape_def)
  show ?case
  proof (cases "\<not> ok \<and> attempts < MAX_REHASH_ATTEMPTS")
    case False
    with t show ?thesis by (auto simp add: eq)
  next
    case True
    from ck_rehash_defined [OF ti] obtain u where u: "ck_rehash mk t = Inr u" ..
    from ck_rehash_inv(1,2) [OF u ti(1)] ti(2) have ui: "ck_inv mk u" "0 < ck_capacity u"
      by simp_all
    have "\<exists>r. ck_insert_loop mk u key val (attempts + 1) = Inr r"
      by (rule "1.IH" [OF t refl True u ui])
    with t True u show ?thesis by (auto simp add: eq)
  qed
qed

lemma ck_insert_call_defined:
  assumes "ck_inv mk s" "0 < ck_capacity s"
  shows "ck_insert_call mk s key val \<noteq> Undefined_behaviour"
proof -
  let ?t = "if 2 * (ck_size_count s + 1) > ck_capacity s then ck_rehash mk s else Inr s"
  from ck_rehash_defined [OF assms] obtain u where "ck_rehash mk s = Inr u" ..
  then have "\<exists>t. ?t = Inr t" by simp
  then obtain t where t: "?t = Inr t" ..
  have "ck_inv mk t" "0 < ck_capacity t"
    using t assms ck_rehash_inv(1,2) [of mk s t] by (auto split: if_splits)
  from ck_insert_loop_defined [OF this, of key val 0]
  obtain r where "ck_insert_loop mk t key val 0 = Inr r" ..
  with t show ?thesis
    by (cases r) (simp add: ck_insert_call_def)
qed

lemma ck_probe_defined:
  assumes "pos1 < length (ck_table1 s)" "pos2 < length (ck_table2 s)"
  shows "\<exists>r. ck_probe s pos1 pos2 key = Inr r"
  using assms by (simp add: ck_probe_def)

lemma ck_call_defined:
  assumes "ck_inv mk s" "0 < ck_capacity s"
  shows "ck_call mk dflt cl s \<noteq> Undefined_behaviour"
proof -
  from assms have len: "length (ck_table1 s) = ck_capacity s" "length (ck_table2 s) = ck_capacity s"
    by (simp_all add: ck_inv_def)
  have pos: "unat (mk (ck_hasher1 s) key) mod ck_capacity s < ck_capacity s"
    "unat (mk (ck_hasher2 s) key) mod ck_capacity s < ck_capacity s" for key
    using assms(2) by simp_all
  have h: "ck_get_hash1 mk s key = Inr (unat (mk (ck_hasher1 s) key) mod ck_capacity s)"
    "ck_get_hash2 mk s key = Inr (unat (mk (ck_hasher2 s) key) mod ck_capacity s)" for key
    using assms(2) by (simp_all add: ck_get_hash1_def ck_get_hash2_def)
  show ?thesis
  proof (cases cl)
    case (CallInsert key val)
    with ck_insert_call_defined [OF assms, of key val] show ?thesis
      by (simp add: ck_call_def)
  next
    case (CallRemove key)
    with h [of key] pos [of key] len show ?thesis
      by (simp add: ck_call_def ck_remove_call_def ck_remove_def not_le)
  next
    case CallClear
    then show ?thesis by (simp add: ck_call_def)
  next
    case (CallAt key)
    from ck_probe_defined [of _ s _ key] pos [of key] len
    obtain r where "ck_probe s (unat (mk (ck_hasher1 s) key) mod ck_capacity s)
        (unat (mk (ck_hasher2 s) key) mod ck_capacity s) key = Inr r"
      by fastforce
    with h [of key] CallAt show ?thesis
      by (simp add: ck_call_def ck_at_call_def ck_at_def split: option.splits)
  next
    case (CallIndex key)
    let ?p1 = "unat (mk (ck_hasher1 s) key) mod ck_capacity s"
    let ?p2 = "unat (mk (ck_hasher2 s) key) mod ck_capacity s"
    from ck_probe_defined [of ?p1 s ?p2 key] pos [of key] len
    obtain r where r: "ck_probe s ?p1 ?p2 key = Inr r" by auto
    show ?thesis
    proof (cases r)
      case (Some v)
      with r h [of key] CallIndex show ?thesis
        by (simp add: ck_call_def ck_index_call_def)
    next
      case None
      show ?thesis
      proof (cases "ck_insert_call mk s key dflt")
        case Undefined_behaviour
        with ck_insert_call_defined [OF assms, of key dflt] show ?thesis by simp
      next
        case (Throws e t)
        with None r h [of key] CallIndex show ?thesis
          by (simp add: ck_call_def ck_index_call_def)
      next
        case (Returns t)
        from ck_insert_call_inv [of mk s key dflt t undefined] Returns assms(1)
        have "ck_inv mk t" "ck_capacity s \<le> ck_capacity t" by simp_all
        then have "?p1 < length (ck_table1 t)" "?p2 < length (ck_table2 t)"
          using less_le_trans [OF pos(1) [of key], of "ck_capacity t"]
            less_le_trans [OF pos(2) [of key], of "ck_capacity t"]
          by (simp_all add: ck_inv_def)
        from ck_probe_defined [OF this, of key]
        obtain r' where "ck_probe t ?p1 ?p2 key = Inr r'" ..
        with Returns None r h [of key] CallIndex show ?thesis
          by (simp add: ck_call_def ck_index_call_def split: option.splits)
      qed
    qed
  qed
qed

section \<open>Proofs: capacity and load factor\<close>

lemma sc_run_reachable:
  assumes "sc_run hasher dflt ops (sc_new c) = Inr s"
  shows "sc_reachable hasher dflt c s"
proof -
  have "sc_reachable hasher dflt c s0 \<Longrightarrow> foldE (sc_apply hasher dflt) ops s0 = Inr s
      \<Longrightarrow> sc_reachable hasher dflt c s" for s0
  proof (induction ops arbitrary: s0)
    case Nil
    then show ?case by simp
  next
    case (Cons op ops)
    from Cons.prems(2) obtain t where t: "sc_apply hasher dflt op s0 = Inr t"
      "foldE (sc_apply hasher dflt) ops t = Inr s"
      by (auto split: sum.splits)
    from Cons.prems(1) t(1) have "sc_reachable hasher dflt c t" by (rule sc_reach_step)
    from Cons.IH [OF this t(2)] show ?case .
  qed
  from this [OF sc_reach_new] assms show ?thesis by (simp add: sc_run_def)
qed

lemma lp_run_reachable:
  assumes "lp_run hasher dflt ops (lp_new c) = Inr s"
  shows "lp_reachable hasher dflt c s"
proof -
  have "lp_reachable hasher dflt c s0 \<Longrightarrow> foldE (lp_apply hasher dflt) ops s0 = Inr s
      \<Longrightarrow> lp_reachable hasher dflt c s" for s0
  proof (induction ops arbitrary: s0)
    case Nil
    then show ?case by simp
  next
    case (Cons op ops)
    from Cons.prems(2) obtain t where t: "lp_apply hasher dflt op s0 = Inr t"
      "foldE (lp_apply hasher dflt) ops t = Inr s"
      by (auto split: sum.splits)
    from Cons.prems(1) t(1) have "lp_reachable hasher dflt c t" by (rule lp_reach_step)
    from Cons.IH [OF this t(2)] show ?case .
  qed
  from this [OF lp_reach_new] assms show ?thesis by (simp add: lp_run_def)
qed

lemma ck_run_reachable:
  assumes "ck_run mk dflt ops (ck_new c) = Inr s"
  shows "ck_reachable mk dflt c s"
proof -
  have "ck_reachable mk dflt c s0 \<Longrightarrow> foldE (ck_apply mk dflt) ops s0 = Inr s
      \<Longrightarrow> ck_reachable mk dflt c s" for s0
  proof (induction ops arbitrary: s0)
    case Nil
    then show ?case by simp
  next
    case (Cons op ops)
    from Cons.prems(2) obtain t where t: "ck_apply mk dflt op s0 = Inr t"
      "foldE (ck_apply mk dflt) ops t = Inr s"
      by (auto split: sum.splits)
    from Cons.prems(1) t(1) have "ck_reachable mk dflt c t" by (rule ck_reach_step)
    from Cons.IH [OF this t(2)] show ?case .
  qed
  from this [OF ck_reach_new] assms show ?thesis by (simp add: ck_run_def)
qed

lemma sc_pair_reachable: "sc_reachable key_hasher (0::nat) INITIAL_CAPACITY sc_pair"
proof (rule sc_run_reachable)
  show "sc_run key_hasher 0 [OpInsert 0 10, OpInsert 16 20] (sc_new INITIAL_CAPACITY) = Inr sc_pair"
    by code_simp
qed

lemma lp_twice_reachable: "lp_reachable key_hasher (0::nat) INITIAL_CAPACITY lp_twice"
proof (rule lp_run_reachable)
  show "lp_run key_hasher 0 [OpInsert 0 10, OpInsert 16 20, OpRemove 0, OpInsert 16 30]
          (lp_new INITIAL_CAPACITY) = Inr lp_twice"
    by code_simp
qed

lemma lp_loaded_reachable: "lp_reachable key_hasher (0::nat) INITIAL_CAPACITY lp_loaded"
proof (rule lp_run_reachable)
  show "lp_run key_hasher 0
     [OpInsert 0 10, OpInsert 16 20, OpRemove 0, OpInsert 16 30,
      OpInsert 1 1, OpInsert 2 2, OpInsert 3 3, OpInsert 4 4, OpInsert 5 5,
      OpInsert 6 6, OpInsert 7 7, OpInsert 8 8, OpInsert 9 9] (lp_new INITIAL_CAPACITY) = Inr lp_loaded"
    by code_simp
qed

lemma ck_eight_reachable: "ck_reachable key_hashers (0::nat) INITIAL_CAPACITY ck_eight"
proof (rule ck_run_reachable)
  show "ck_run key_hashers 0
     [OpInsert 0 1, OpInsert 1 1, OpInsert 2 1, OpInsert 3 1, OpInsert 4 1, OpInsert 5 1,
      OpInsert 6 1, OpInsert 7 1] (ck_new INITIAL_CAPACITY) = Inr ck_eight"
    by code_simp
qed

text \<open>
  Three calls that throw: \<^verbatim>\<open>at\<close> of an absent key on the chaining and on the
  probing map, which leaves the map as it is, and \<^verbatim>\<open>operator[]\<close> on the cuckoo map
  holding the keys 0 to 7, which throws its internal error after its insert has
  rehashed and returned.
\<close>

lemma sc_pair_at_throws:
  "sc_call key_hasher (0::nat) (CallAt 99) sc_pair = Throws KeyNotFound sc_pair"
  by code_simp

lemma lp_twice_at_throws:
  "lp_call key_hasher (0::nat) (CallAt 99) lp_twice = Throws KeyNotFound lp_twice"
  by code_simp

lemma ck_eight_index_throws:
  "ck_call key_hashers (0::nat) (CallIndex 24) ck_eight = Throws InternalError ck_nine"
  by code_simp

text \<open>
  Claim C10, amended. A map of any variant that is constructed with a positive initial
  capacity has a positive capacity after every sequence of calls of its public member
  functions, whether they return or throw (the states left by a call that throws
  included): the capacity never falls below the initial capacity. The slot index of
  every key is then a remainder by that positive capacity, and no call on such a map
  has undefined behaviour: none takes a remainder by 0 or indexes outside a table.
\<close>

theorem capacity_stays_positive:
  assumes "0 < c"
  shows "(sc_observable hasher dflt c s1 \<longrightarrow>
            0 < sc_capacity s1 \<and>
            sc_get_bucket_index hasher s1 key = Inr (unat (hasher key) mod sc_capacity s1) \<and>
            sc_call hasher dflt cl s1 \<noteq> Undefined_behaviour)
       \<and> (lp_observable hasher dflt c s2 \<longrightarrow>
            0 < lp_capacity s2 \<and>
            lp_get_hash hasher s2 key = Inr (unat (hasher key) mod lp_capacity s2) \<and>
            lp_call hasher dflt cl s2 \<noteq> Undefined_behaviour)
       \<and> (ck_observable mk dflt c s3 \<longrightarrow>
            0 < ck_capacity s3 \<and>
            ck_get_hash1 mk s3 key = Inr (unat (mk (ck_hasher1 s3) key) mod ck_capacity s3) \<and>
            ck_get_hash2 mk s3 key = Inr (unat (mk (ck_hasher2 s3) key) mod ck_capacity s3) \<and>
            ck_call mk dflt cl s3 \<noteq> Undefined_behaviour)"
proof (intro conjI impI)
  assume "sc_observable hasher dflt c s1"
  from sc_observable_inv [OF this] assms have inv: "sc_inv s1" and pos: "0 < sc_capacity s1"
    by simp_all
  from pos show "0 < sc_capacity s1" .
  from pos show "sc_get_bucket_index hasher s1 key = Inr (unat (hasher key) mod sc_capacity s1)"
    by (simp add: sc_get_bucket_index_def)
  from inv pos show "sc_call hasher dflt cl s1 \<noteq> Undefined_behaviour"
    by (rule sc_call_defined)
next
  assume "lp_observable hasher dflt c s2"
  from lp_observable_inv [OF this] assms have inv: "lp_inv s2" and pos: "0 < lp_capacity s2"
    by simp_all
  from pos show "0 < lp_capacity s2" .
  from pos show "lp_get_hash hasher s2 key = Inr (unat (hasher key) mod lp_capacity s2)"
    by (simp add: lp_get_hash_def)
  from inv pos show "lp_call hasher dflt cl s2 \<noteq> Undefined_behaviour"
    by (rule lp_call_defined)
next
  assume "ck_observable mk dflt c s3"
  from ck_observable_inv [OF this] assms have inv: "ck_inv mk s3" and pos: "0 < ck_capacity s3"
    by simp_all
  from pos show "0 < ck_capacity s3" .
  from pos show "ck_get_hash1 mk s3 key = Inr (unat (mk (ck_hasher1 s3) key) mod ck_capacity s3)"
    by (simp add: ck_get_hash1_def)
  from pos show "ck_get_hash2 mk s3 key = Inr (unat (mk (ck_hasher2 s3) key) mod ck_capacity s3)"
    by (simp add: ck_get_hash2_def)
  from inv pos show "ck_call mk dflt cl s3 \<noteq> Undefined_behaviour"
    by (rule ck_call_defined)
qed

theorem capacity_stays_positive_witness:
  "0 < INITIAL_CAPACITY
   \<and> sc_call key_hasher (0::nat) (CallAt 99) sc_pair = Throws KeyNotFound sc_pair
   \<and> sc_observable key_hasher (0::nat) INITIAL_CAPACITY sc_pair \<and> 0 < sc_capacity sc_pair
   \<and> sc_get_bucket_index key_hasher sc_pair 16 = Inr 0
   \<and> sc_call key_hasher (0::nat) (CallIndex 24) sc_pair \<noteq> Undefined_behaviour
   \<and> lp_call key_hasher (0::nat) (CallAt 99) lp_twice = Throws KeyNotFound lp_twice
   \<and> lp_observable key_hasher (0::nat) INITIAL_CAPACITY lp_twice \<and> 0 < lp_capacity lp_twice
   \<and> lp_get_hash key_hasher lp_twice 16 = Inr 0
   \<and> lp_call key_hasher (0::nat) (CallIndex 24) lp_twice \<noteq> Undefined_behaviour
   \<and> ck_call key_hashers (0::nat) (CallIndex 24) ck_eight = Throws InternalError ck_nine
   \<and> ck_observable key_hashers (0::nat) INITIAL_CAPACITY ck_nine \<and> 0 < ck_capacity ck_nine
   \<and> ck_get_hash1 key_hashers ck_nine 16 = Inr 16
   \<and> ck_get_hash2 key_hashers ck_nine 16 = Inr 16
   \<and> ck_call key_hashers (0::nat) (CallIndex 24) ck_nine \<noteq> Undefined_behaviour"
proof -
  have c: "0 < INITIAL_CAPACITY" by (simp add: INITIAL_CAPACITY_def)
  have sc: "sc_observable key_hasher (0::nat) INITIAL_CAPACITY sc_pair"
    using sc_reachable_observable [OF sc_pair_reachable] sc_pair_at_throws
    by (rule sc_obs_throws)
  have lp: "lp_observable key_hasher (0::nat) INITIAL_CAPACITY lp_twice"
    using lp_reachable_observable [OF lp_twice_reachable] lp_twice_at_throws
    by (rule lp_obs_throws)
  have ck: "ck_observable key_hashers (0::nat) INITIAL_CAPACITY ck_nine"
    using ck_reachable_observable [OF ck_eight_reachable] ck_eight_index_throws
    by (rule ck_obs_throws)
  have m: "unat (key_hasher 16) mod sc_capacity sc_pair = 0"
    "unat (key_hasher 16) mod lp_capacity lp_twice = 0"
    "unat (key_hashers (ck_hasher1 ck_nine) 16) mod ck_capacity ck_nine = 16"
    "unat (key_hashers (ck_hasher2 ck_nine) 16) mod ck_capacity ck_nine = 16"
    by (simp_all add: key_hasher_def key_hashers_def sc_pair_def lp_twice_def ck_nine_def)
  note inst = capacity_stays_positive [OF c,
      where hasher = key_hasher and dflt = 0 and ?s1.0 = sc_pair and key = 16
        and cl = "CallIndex 24" and ?s2.0 = lp_twice and mk = key_hashers and ?s3.0 = ck_nine]
  from inst sc lp ck c m sc_pair_at_throws lp_twice_at_throws ck_eight_index_throws
  show ?thesis by simp
qed

text \<open>
  Claim C7. Starting from a map constructed with the default initial capacity, after
  every public operation of a sequence in which all operations return normally, the
  load factor (size over capacity) is at most 0.75 for the chaining map, at most 0.7
  for the probing map and at most 0.5 for the cuckoo map.
\<close>

theorem load_factor_bounded:
  "(sc_reachable hasher dflt INITIAL_CAPACITY s1 \<longrightarrow> sc_load_factor s1 \<le> 0.75)
 \<and> (lp_reachable hasher dflt INITIAL_CAPACITY s2 \<longrightarrow> lp_load_factor s2 \<le> 0.7)
 \<and> (ck_reachable mk dflt INITIAL_CAPACITY s3 \<longrightarrow> ck_load_factor s3 \<le> 0.5)"
proof (intro conjI impI)
  have c: "0 < INITIAL_CAPACITY" by (simp add: INITIAL_CAPACITY_def)
  {
    assume "sc_reachable hasher dflt INITIAL_CAPACITY s1"
    from sc_reachable_inv [OF this] c
    have "0 < sc_capacity s1" "4 * sc_size_count s1 \<le> 3 * sc_capacity s1" by simp_all
    then have "0 < real (sc_capacity s1)"
      "real (4 * sc_size_count s1) \<le> real (3 * sc_capacity s1)"
      by (simp_all only: of_nat_le_iff of_nat_0_less_iff)
    then have "0 < real (sc_capacity s1)"
      "4 * real (sc_size_count s1) \<le> 3 * real (sc_capacity s1)"
      by simp_all
    then show "sc_load_factor s1 \<le> 0.75"
      by (simp add: sc_load_factor_def field_simps)
  }
  {
    assume "lp_reachable hasher dflt INITIAL_CAPACITY s2"
    from lp_reachable_inv [OF this] c
    have "0 < lp_capacity s2" "10 * lp_size_count s2 \<le> 7 * lp_capacity s2" by simp_all
    then have "0 < real (lp_capacity s2)"
      "real (10 * lp_size_count s2) \<le> real (7 * lp_capacity s2)"
      by (simp_all only: of_nat_le_iff of_nat_0_less_iff)
    then have "0 < real (lp_capacity s2)"
      "10 * real (lp_size_count s2) \<le> 7 * real (lp_capacity s2)"
      by simp_all
    then show "lp_load_factor s2 \<le> 0.7"
      by (simp add: lp_load_factor_def field_simps)
  }
  {
    assume "ck_reachable mk dflt INITIAL_CAPACITY s3"
    from ck_reachable_inv [OF this] c
    have "0 < ck_capacity s3" "2 * ck_size_count s3 \<le> ck_capacity s3" by simp_all
    then have "0 < real (ck_capacity s3)"
      "real (2 * ck_size_count s3) \<le> real (ck_capacity s3)"
      by (simp_all only: of_nat_le_iff of_nat_0_less_iff)
    then have "0 < real (ck_capacity s3)"
      "2 * real (ck_size_count s3) \<le> real (ck_capacity s3)"
      by simp_all
    then show "ck_load_factor s3 \<le> 0.5"
      by (simp add: ck_load_factor_def field_simps)
  }
qed

theorem load_factor_bounded_witness:
  "sc_reachable key_hasher (0::nat) INITIAL_CAPACITY sc_pair \<and> sc_load_factor sc_pair \<le> 0.75
 \<and> lp_reachable key_hasher (0::nat) INITIAL_CAPACITY lp_loaded \<and> lp_load_factor lp_loaded \<le> 0.7
 \<and> ck_reachable key_hashers (0::nat) INITIAL_CAPACITY ck_eight \<and> ck_load_factor ck_eight \<le> 0.5"
  using load_factor_bounded [of key_hasher 0 sc_pair lp_loaded key_hashers ck_eight]
    sc_pair_reachable lp_loaded_reachable ck_eight_reachable
  by blast

section \<open>Proofs: round trip\<close>

lemma bucket_assign_find:
  "bucket_assign b key val = Some b' \<Longrightarrow> bucket_find b' key = Some val"
  by (induction b key val arbitrary: b' rule: bucket_assign.induct)
     (auto split: if_splits option.splits)

lemma bucket_append_find:
  "bucket_assign b key val = None \<Longrightarrow> bucket_find (b @ [(key, val)]) key = Some val"
  by (induction b key val rule: bucket_assign.induct)
     (auto split: if_splits option.splits)

lemma sc_inner_insert_at:
  assumes "sc_inner_insert hasher s key val = Inr s'"
  shows "sc_at hasher s' key = Inr val \<and> sc_contains_key hasher s' key = Inr True"
proof -
  from assms obtain i where i: "sc_get_bucket_index hasher s key = Inr i"
    "i < length (sc_buckets s)"
    by (auto simp add: sc_inner_insert_def split: sum.splits if_splits)
  have "\<exists>b'. s' = s\<lparr>sc_buckets := (sc_buckets s)[i := b']\<rparr> \<and> bucket_find b' key = Some val
      \<or> s' = s\<lparr>sc_buckets := (sc_buckets s)[i := b'],
                 sc_size_count := sc_size_count s + 1\<rparr> \<and> bucket_find b' key = Some val"
  proof (cases "bucket_assign (sc_buckets s ! i) key val")
    case None
    with assms i bucket_append_find [OF None] show ?thesis
      by (auto simp add: sc_inner_insert_def)
  next
    case (Some b')
    with assms i bucket_assign_find [OF Some] show ?thesis
      by (auto simp add: sc_inner_insert_def)
  qed
  then obtain b' where b': "bucket_find b' key = Some val"
    "sc_buckets s' = (sc_buckets s)[i := b']" "sc_capacity s' = sc_capacity s"
    by auto
  from i(1) b'(3) have "sc_get_bucket_index hasher s' key = Inr i"
    by (simp add: sc_get_bucket_index_def split: if_splits)
  with i(2) b' show ?thesis
    by (simp add: sc_at_def sc_contains_key_def)
qed

lemma sc_insert_at:
  assumes "sc_insert hasher s key val = Inr s'"
  shows "sc_at hasher s' key = Inr val \<and> sc_contains_key hasher s' key = Inr True"
proof -
  from assms obtain t where "sc_inner_insert hasher t key val = Inr s'"
    by (auto simp add: sc_insert_def split: sum.splits)
  then show ?thesis by (rule sc_inner_insert_at)
qed

lemma insert_probe_then_lookup:
  assumes "insert_probe table capacity key original_index index = Inr j"
  shows "lookup_probe (table[j := Occupied key val]) capacity key original_index index = Inr j"
  using assms
proof (induction table capacity key original_index index rule: insert_probe.induct)
  case (1 table capacity key original_index index)
  note res = insert_probe_Inr [OF "1.prems"]
  let ?t' = "table[j := Occupied key val]"
  show ?case
  proof (cases "index < capacity \<and> original_index < capacity \<and> index < length table")
    case False
    with "1.prems" show ?thesis by (simp add: insert_probe.simps)
  next
    case guard: True
    then have guard': "index < capacity \<and> original_index < capacity \<and> index < length ?t'"
      by simp
    show ?thesis
    proof (cases "occupied_with (table ! index) key \<or> \<not> is_occupied (table ! index)")
      case True
      with guard "1.prems" have "j = index"
        by (subst (asm) insert_probe.simps) (auto split: Entry.splits if_splits)
      with guard show ?thesis
        by (subst lookup_probe.simps) simp
    next
      case False
      then obtain k v where e: "table ! index = Occupied k v" "k \<noteq> key"
        by (cases "table ! index") auto
      with guard "1.prems"
      have next_index: "(index + 1) mod capacity \<noteq> original_index"
        and rec: "insert_probe table capacity key original_index ((index + 1) mod capacity) = Inr j"
        by (auto simp add: insert_probe.simps [of table capacity key original_index index] Let_def
              split: if_splits)
      have IH: "lookup_probe ?t' capacity key original_index ((index + 1) mod capacity) = Inr j"
        by (rule "1.IH" [OF guard e(1) e(2) refl next_index rec])
      from res e have "j \<noteq> index" by auto
      with e have "?t' ! index = Occupied k v" by simp
      with guard' e(2) next_index IH show ?thesis
        by (subst lookup_probe.simps) (simp add: Let_def)
    qed
  qed
qed

lemma lp_inner_insert_at:
  assumes "lp_inner_insert hasher s key val = Inr s'"
  shows "lp_at hasher s' key = Inr val \<and> lp_contains_key hasher s' key = Inr True"
proof -
  from assms obtain j where j: "lp_find_slot_for_insert hasher s key = Inr j"
    by (auto simp add: lp_inner_insert_def split: sum.splits)
  note f = lp_find_slot_for_insert_Inr [OF j]
  from j obtain i where i: "lp_get_hash hasher s key = Inr i"
    "insert_probe (lp_table s) (lp_capacity s) key i i = Inr j"
    by (auto simp add: lp_find_slot_for_insert_def split: sum.splits)
  from assms j have s': "lp_table s' = (lp_table s)[j := Occupied key val]"
    "lp_capacity s' = lp_capacity s"
    by (auto simp add: lp_inner_insert_def Let_def split: if_splits)
  from i(1) s'(2) have "lp_get_hash hasher s' key = Inr i"
    by (simp add: lp_get_hash_def split: if_splits)
  with insert_probe_then_lookup [OF i(2), of val] s'
  have "lp_find_slot_for_lookup hasher s' key = Inr j"
    by (simp add: lp_find_slot_for_lookup_def)
  with f(2,3) s' show ?thesis
    by (simp add: lp_at_def lp_contains_key_def)
qed

lemma lp_insert_at:
  assumes "lp_insert hasher s key val = Inr s'"
  shows "lp_at hasher s' key = Inr val \<and> lp_contains_key hasher s' key = Inr True"
proof -
  from assms obtain t where "lp_inner_insert hasher t key val = Inr s'"
    by (auto simp add: lp_insert_def split: sum.splits)
  then show ?thesis by (rule lp_inner_insert_at)
qed

lemma holds_key_Some: "holds_key (Some e) key \<longleftrightarrow> fst e = key"
  by (cases e) simp

lemma ck_once_at:
  assumes "ck_inv mk s" "0 < ck_capacity s" "ck_once mk s None key val"
  shows "ck_at mk s key = Inr val \<and> ck_contains_key mk s key = Inr True"
proof -
  let ?p1 = "unat (mk (ck_hasher1 s) key) mod ck_capacity s"
  let ?p2 = "unat (mk (ck_hasher2 s) key) mod ck_capacity s"
  from assms(1,2) have len: "?p1 < length (ck_table1 s)" "?p2 < length (ck_table2 s)"
    by (simp_all add: ck_inv_def)
  from assms(3) have
    "(ck_table1 s ! ?p1 = Some (key, val) \<and> \<not> holds_key (ck_table2 s ! ?p2) key) \<or>
     (\<not> holds_key (ck_table1 s ! ?p1) key \<and> ck_table2 s ! ?p2 = Some (key, val))"
    by (auto simp add: ck_once_def Let_def)
  then have "ck_probe s ?p1 ?p2 key = Inr (Some val)"
    using len by (auto simp add: ck_probe_def)
  then show ?thesis using assms(2)
    by (simp add: ck_at_def ck_contains_key_def ck_get_hash1_def ck_get_hash2_def)
qed

lemma ck_once_step1:
  assumes "ck_inv mk s" "ck_get_hash1 mk s (fst e) = Inr p" "ck_once mk s (Some e) key val"
  shows "ck_table1 s ! p = None \<Longrightarrow>
         ck_once mk (s\<lparr>ck_table1 := (ck_table1 s)[p := Some e],
                       ck_size_count := ck_size_count s + 1\<rparr>) None key val"
    and "ck_table1 s ! p = Some occupant \<Longrightarrow>
         ck_once mk (s\<lparr>ck_table1 := (ck_table1 s)[p := Some e]\<rparr>) (Some occupant) key val"
proof -
  let ?p1 = "unat (mk (ck_hasher1 s) key) mod ck_capacity s"
  let ?p2 = "unat (mk (ck_hasher2 s) key) mod ck_capacity s"
  let ?a = "ck_table1 s ! ?p1" and ?b = "ck_table2 s ! ?p2"
  from ck_get_hash1_Inr [OF assms(2)] assms(1)
  have p: "p < length (ck_table1 s)" "p = unat (mk (ck_hasher1 s) (fst e)) mod ck_capacity s"
    by (simp_all add: ck_inv_def)
  have placed: "ck_placed (mk (ck_hasher1 s)) (ck_capacity s) (ck_table1 s)"
    using assms(1) by (simp add: ck_inv_def)
  from assms(3) have once:
    "(e = (key, val) \<and> \<not> holds_key ?a key \<and> \<not> holds_key ?b key) \<or>
     (fst e \<noteq> key \<and> ?a = Some (key, val) \<and> \<not> holds_key ?b key) \<or>
     (fst e \<noteq> key \<and> \<not> holds_key ?a key \<and> ?b = Some (key, val))"
    by (auto simp add: ck_once_def Let_def holds_key_Some)
  have away: "fst e \<noteq> key" if "p \<noteq> ?p1" using that p(2) by auto
  show "ck_once mk (s\<lparr>ck_table1 := (ck_table1 s)[p := Some e],
                       ck_size_count := ck_size_count s + 1\<rparr>) None key val"
    if none: "ck_table1 s ! p = None"
  proof (cases "p = ?p1")
    case True
    with none once p(1) show ?thesis
      by (auto simp add: ck_once_def Let_def holds_key_Some)
  next
    case False
    with away once p(1) show ?thesis
      by (auto simp add: ck_once_def Let_def)
  qed
  show "ck_once mk (s\<lparr>ck_table1 := (ck_table1 s)[p := Some e]\<rparr>) (Some occupant) key val"
    if some: "ck_table1 s ! p = Some occupant"
  proof (cases "p = ?p1")
    case True
    with some once p(1) show ?thesis
      by (cases occupant) (auto simp add: ck_once_def Let_def holds_key_Some)
  next
    case False
    obtain k v where o: "occupant = (k, v)" by (cases occupant)
    with some placed p(1) have "unat (mk (ck_hasher1 s) k) mod ck_capacity s = p"
      unfolding ck_placed_def by blast
    with False have "k \<noteq> key" by auto
    with False away once p(1) o show ?thesis
      by (auto simp add: ck_once_def Let_def)
  qed
qed

lemma ck_once_step2:
  assumes "ck_inv mk s" "ck_get_hash2 mk s (fst e) = Inr p" "ck_once mk s (Some e) key val"
  shows "ck_table2 s ! p = None \<Longrightarrow>
         ck_once mk (s\<lparr>ck_table2 := (ck_table2 s)[p := Some e],
                       ck_size_count := ck_size_count s + 1\<rparr>) None key val"
    and "ck_table2 s ! p = Some occupant \<Longrightarrow>
         ck_once mk (s\<lparr>ck_table2 := (ck_table2 s)[p := Some e]\<rparr>) (Some occupant) key val"
proof -
  let ?p1 = "unat (mk (ck_hasher1 s) key) mod ck_capacity s"
  let ?p2 = "unat (mk (ck_hasher2 s) key) mod ck_capacity s"
  let ?a = "ck_table1 s ! ?p1" and ?b = "ck_table2 s ! ?p2"
  from ck_get_hash2_Inr [OF assms(2)] assms(1)
  have p: "p < length (ck_table2 s)" "p = unat (mk (ck_hasher2 s) (fst e)) mod ck_capacity s"
    by (simp_all add: ck_inv_def)
  have placed: "ck_placed (mk (ck_hasher2 s)) (ck_capacity s) (ck_table2 s)"
    using assms(1) by (simp add: ck_inv_def)
  from assms(3) have once:
    "(e = (key, val) \<and> \<not> holds_key ?a key \<and> \<not> holds_key ?b key) \<or>
     (fst e \<noteq> key \<and> ?a = Some (key, val) \<and> \<not> holds_key ?b key) \<or>
     (fst e \<noteq> key \<and> \<not> holds_key ?a key \<and> ?b = Some (key, val))"
    by (auto simp add: ck_once_def Let_def holds_key_Some)
  have away: "fst e \<noteq> key" if "p \<noteq> ?p2" using that p(2) by auto
  show "ck_once mk (s\<lparr>ck_table2 := (ck_table2 s)[p := Some e],
                       ck_size_count := ck_size_count s + 1\<rparr>) None key val"
    if none: "ck_table2 s ! p = None"
  proof (cases "p = ?p2")
    case True
    with none once p(1) show ?thesis
      by (auto simp add: ck_once_def Let_def holds_key_Some)
  next
    case False
    with away once p(1) show ?thesis
      by (auto simp add: ck_once_def Let_def)
  qed
  show "ck_once mk (s\<lparr>ck_table2 := (ck_table2 s)[p := Some e]\<rparr>) (Some occupant) key val"
    if some: "ck_table2 s ! p = Some occupant"
  proof (cases "p = ?p2")
    case True
    with some once p(1) show ?thesis
      by (cases occupant) (auto simp add: ck_once_def Let_def holds_key_Some)
  next
    case False
    obtain k v where o: "occupant = (k, v)" by (cases occupant)
    with some placed p(1) have "unat (mk (ck_hasher2 s) k) mod ck_capacity s = p"
      unfolding ck_placed_def by blast
    with False have "k \<noteq> key" by auto
    with False away once p(1) o show ?thesis
      by (auto simp add: ck_once_def Let_def)
  qed
qed

lemma eviction_walk_once:
  assumes "eviction_walk mk s n e use_table1 = Inr (True, s')" "ck_inv mk s"
    "ck_once mk s (Some e) key val"
  shows "ck_once mk s' None key val"
  using assms
proof (induction n arbitrary: s e use_table1)
  case 0
  then show ?case by simp
next
  case (Suc n)
  show ?case
  proof (cases use_table1)
    case True
    with Suc.prems(1) obtain p where p: "ck_get_hash1 mk s (fst e) = Inr p"
      "p < length (ck_table1 s)"
      by (auto split: sum.splits if_splits)
    note put = ck_inv_put1 [OF Suc.prems(2) p(1)]
    note step = ck_once_step1 [OF Suc.prems(2) p(1) Suc.prems(3)]
    show ?thesis
    proof (cases "ck_table1 s ! p")
      case None
      with Suc.prems(1) True p have
        "s' = s\<lparr>ck_table1 := (ck_table1 s)[p := Some e], ck_size_count := ck_size_count s + 1\<rparr>"
        by auto
      with step(1) [OF None] show ?thesis by simp
    next
      case (Some occupant)
      let ?s1 = "s\<lparr>ck_table1 := (ck_table1 s)[p := Some e]\<rparr>"
      from Suc.prems(1) True p Some
      have rec: "eviction_walk mk ?s1 n occupant False = Inr (True, s')" by simp
      from put(1) Some have "ck_inv mk ?s1" by simp
      from Suc.IH [OF rec this step(2) [OF Some]] show ?thesis .
    qed
  next
    case False
    with Suc.prems(1) obtain p where p: "ck_get_hash2 mk s (fst e) = Inr p"
      "p < length (ck_table2 s)"
      by (auto split: sum.splits if_splits)
    note put = ck_inv_put2 [OF Suc.prems(2) p(1)]
    note step = ck_once_step2 [OF Suc.prems(2) p(1) Suc.prems(3)]
    show ?thesis
    proof (cases "ck_table2 s ! p")
      case None
      with Suc.prems(1) False p have
        "s' = s\<lparr>ck_table2 := (ck_table2 s)[p := Some e], ck_size_count := ck_size_count s + 1\<rparr>"
        by auto
      with step(1) [OF None] show ?thesis by simp
    next
      case (Some occupant)
      let ?s1 = "s\<lparr>ck_table2 := (ck_table2 s)[p := Some e]\<rparr>"
      from Suc.prems(1) False p Some
      have rec: "eviction_walk mk ?s1 n occupant True = Inr (True, s')" by simp
      from put(1) Some have "ck_inv mk ?s1" by simp
      from Suc.IH [OF rec this step(2) [OF Some]] show ?thesis .
    qed
  qed
qed

lemma ck_inner_insert_at:
  assumes "ck_inner_insert mk s key val = Inr (True, s')" "ck_inv mk s"
  shows "ck_at mk s' key = Inr val \<and> ck_contains_key mk s' key = Inr True"
proof -
  from assms(1) obtain p1 p2 where p: "ck_get_hash1 mk s key = Inr p1"
    "ck_get_hash2 mk s key = Inr p2"
    by (auto simp add: ck_inner_insert_def split: sum.splits)
  note h1 = ck_get_hash1_Inr [OF p(1)] and h2 = ck_get_hash2_Inr [OF p(2)]
  from assms(1) p have rng: "p1 < length (ck_table1 s)" "p2 < length (ck_table2 s)"
    by (auto simp add: ck_inner_insert_def split: if_splits)
  note ii = ck_inner_insert_inv [OF assms]
  then have shape: "ck_capacity s' = ck_capacity s" "ck_hasher1 s' = ck_hasher1 s"
    "ck_hasher2 s' = ck_hasher2 s"
    by (simp_all add: ck_same_shape_def)
  have gh: "ck_get_hash1 mk s' key = Inr p1" "ck_get_hash2 mk s' key = Inr p2"
    using h1 h2 shape by (simp_all add: ck_get_hash1_def ck_get_hash2_def)
  consider (upd1) "holds_key (ck_table1 s ! p1) key"
    | (upd2) "\<not> holds_key (ck_table1 s ! p1) key" "holds_key (ck_table2 s ! p2) key"
    | (new1) "\<not> holds_key (ck_table1 s ! p1) key" "\<not> holds_key (ck_table2 s ! p2) key"
        "ck_table1 s ! p1 = None"
    | (new2) "\<not> holds_key (ck_table1 s ! p1) key" "\<not> holds_key (ck_table2 s ! p2) key"
        "ck_table1 s ! p1 \<noteq> None" "ck_table2 s ! p2 = None"
    | (walk) "\<not> holds_key (ck_table1 s ! p1) key" "\<not> holds_key (ck_table2 s ! p2) key"
        "ck_table1 s ! p1 \<noteq> None" "ck_table2 s ! p2 \<noteq> None"
    by blast
  then show ?thesis
  proof cases
    case upd1
    with assms(1) p rng have "s' = s\<lparr>ck_table1 := (ck_table1 s)[p1 := Some (key, val)]\<rparr>"
      by (simp add: ck_inner_insert_def)
    with rng gh show ?thesis
      by (simp add: ck_at_def ck_contains_key_def ck_probe_def)
  next
    case upd2
    with assms(1) p rng have "s' = s\<lparr>ck_table2 := (ck_table2 s)[p2 := Some (key, val)]\<rparr>"
      by (simp add: ck_inner_insert_def)
    with rng gh upd2 show ?thesis
      by (simp add: ck_at_def ck_contains_key_def ck_probe_def)
  next
    case new1
    with assms(1) p rng have "s' = s\<lparr>ck_table1 := (ck_table1 s)[p1 := Some (key, val)],
        ck_size_count := ck_size_count s + 1\<rparr>"
      by (simp add: ck_inner_insert_def)
    with rng gh show ?thesis
      by (simp add: ck_at_def ck_contains_key_def ck_probe_def)
  next
    case new2
    with assms(1) p rng have "s' = s\<lparr>ck_table2 := (ck_table2 s)[p2 := Some (key, val)],
        ck_size_count := ck_size_count s + 1\<rparr>"
      by (simp add: ck_inner_insert_def)
    with rng gh new2 show ?thesis
      by (simp add: ck_at_def ck_contains_key_def ck_probe_def)
  next
    case walk
    with assms(1) p rng
    have w: "eviction_walk mk s (ck_capacity s) (key, val) True = Inr (True, s')"
      by (simp add: ck_inner_insert_def)
    from walk h1 h2 have "ck_once mk s (Some (key, val)) key val"
      by (simp add: ck_once_def Let_def)
    from eviction_walk_once [OF w assms(2) this] have "ck_once mk s' None key val" .
    moreover from ii shape have "ck_inv mk s'" "0 < ck_capacity s'" by simp_all
    ultimately show ?thesis by (intro ck_once_at)
  qed
qed

lemma ck_insert_loop_last:
  assumes "ck_insert_loop mk s key val attempts = Inr (s', a)" "a < MAX_REHASH_ATTEMPTS"
    "ck_inv mk s"
  shows "\<exists>u. ck_inv mk u \<and> ck_inner_insert mk u key val = Inr (True, s')"
  using assms
proof (induction mk s key val attempts rule: ck_insert_loop.induct)
  case (1 mk s key val attempts)
  from "1.prems"(1) obtain ok t where t: "ck_inner_insert mk s key val = Inr (ok, t)"
    by (subst (asm) ck_insert_loop.simps) (auto split: sum.splits)
  show ?case
  proof (cases "\<not> ok \<and> attempts < MAX_REHASH_ATTEMPTS")
    case False
    with "1.prems"(1) t have "s' = t \<and> a = attempts"
      by (subst (asm) ck_insert_loop.simps) auto
    then have eq: "s' = t" "a = attempts" by simp_all
    with False "1.prems"(2) have "ok = True" by simp
    with t eq have "ck_inner_insert mk s key val = Inr (True, s')" by simp
    with "1.prems"(3) show ?thesis by (intro exI [of _ s]) simp
  next
    case True
    with "1.prems"(1) t obtain u where u: "ck_rehash mk t = Inr u"
      "ck_insert_loop mk u key val (attempts + 1) = Inr (s', a)"
      by (subst (asm) ck_insert_loop.simps) (auto split: sum.splits)
    from ck_inner_insert_inv [OF t "1.prems"(3)] have "ck_inv mk t" by simp
    from ck_rehash_inv(1) [OF u(1) this] have "ck_inv mk u" .
    show ?thesis
      by (rule "1.IH" [OF t refl True u(1) u(2) "1.prems"(2) \<open>ck_inv mk u\<close>])
  qed
qed

lemma ck_insert_at:
  assumes "ck_insert mk s key val = Inr s'" "ck_inv mk s"
  shows "ck_at mk s' key = Inr val \<and> ck_contains_key mk s' key = Inr True"
proof -
  let ?t = "if 2 * (ck_size_count s + 1) > ck_capacity s then ck_rehash mk s else Inr s"
  obtain t where t1: "?t = Inr t"
    using assms(1) by (cases ?t) (simp_all add: ck_insert_def)
  with assms(1) have
    "(case ck_insert_loop mk t key val 0 of
        Inl e \<Rightarrow> Inl e
      | Inr (s', attempts) \<Rightarrow>
          if attempts \<ge> MAX_REHASH_ATTEMPTS then Inl CapacityExhausted else Inr s') = Inr s'"
    by (simp add: ck_insert_def)
  then obtain a where t23: "ck_insert_loop mk t key val 0 = Inr (s', a)" "a < MAX_REHASH_ATTEMPTS"
    by (cases "ck_insert_loop mk t key val 0") (auto split: if_splits)
  note t = t1 t23
  have "ck_inv mk t"
    using t(1) assms(2) ck_rehash_inv(1) [of mk s t] by (auto split: if_splits)
  from ck_insert_loop_last [OF t(2,3) this] obtain u where
    "ck_inv mk u" "ck_inner_insert mk u key val = Inr (True, s')" by blast
  from ck_inner_insert_at [OF this(2,1)] show ?thesis .
qed

text \<open>
  Claim C6. Round trip: in every state that the public operations can produce from a
  freshly constructed map, of any variant and any initial capacity, an
  \<^verbatim>\<open>insert(k, v)\<close> that returns normally is followed by an \<^verbatim>\<open>at(k)\<close> that returns
  \<open>v\<close> and a \<^verbatim>\<open>contains_key(k)\<close> that returns true.
\<close>

theorem insert_then_at:
  "(sc_reachable hasher dflt c s1 \<and> sc_insert hasher s1 k v = Inr s1' \<longrightarrow>
      sc_at hasher s1' k = Inr v \<and> sc_contains_key hasher s1' k = Inr True)
 \<and> (lp_reachable hasher dflt c s2 \<and> lp_insert hasher s2 k v = Inr s2' \<longrightarrow>
      lp_at hasher s2' k = Inr v \<and> lp_contains_key hasher s2' k = Inr True)
 \<and> (ck_reachable mk dflt c s3 \<and> ck_insert mk s3 k v = Inr s3' \<longrightarrow>
      ck_at mk s3' k = Inr v \<and> ck_contains_key mk s3' k = Inr True)"
proof (intro conjI impI)
  assume "sc_reachable hasher dflt c s1 \<and> sc_insert hasher s1 k v = Inr s1'"
  then have "sc_insert hasher s1 k v = Inr s1'" by simp
  from sc_insert_at [OF this]
  show "sc_at hasher s1' k = Inr v" "sc_contains_key hasher s1' k = Inr True" by simp_all
next
  assume "lp_reachable hasher dflt c s2 \<and> lp_insert hasher s2 k v = Inr s2'"
  then have "lp_insert hasher s2 k v = Inr s2'" by simp
  from lp_insert_at [OF this]
  show "lp_at hasher s2' k = Inr v" "lp_contains_key hasher s2' k = Inr True" by simp_all
next
  assume a: "ck_reachable mk dflt c s3 \<and> ck_insert mk s3 k v = Inr s3'"
  then have r: "ck_reachable mk dflt c s3" and i: "ck_insert mk s3 k v = Inr s3'" by simp_all
  from ck_reachable_inv [OF r] have "ck_inv mk s3" by simp
  from ck_insert_at [OF i this]
  show "ck_at mk s3' k = Inr v" "ck_contains_key mk s3' k = Inr True" by simp_all
qed

theorem insert_then_at_witness:
  "sc_reachable key_hasher (0::nat) INITIAL_CAPACITY sc_pair
 \<and> sc_insert key_hasher sc_pair 24 0
     = Inr (sc_pair\<lparr>sc_buckets := (sc_buckets sc_pair)[8 := [(24, 0)]], sc_size_count := 3\<rparr>)
 \<and> sc_at key_hasher
       (sc_pair\<lparr>sc_buckets := (sc_buckets sc_pair)[8 := [(24, 0)]], sc_size_count := 3\<rparr>) 24 = Inr 0
 \<and> lp_reachable key_hasher (0::nat) INITIAL_CAPACITY lp_twice
 \<and> lp_insert key_hasher lp_twice 24 0
     = Inr (lp_twice\<lparr>lp_table := (lp_table lp_twice)[8 := Occupied 24 0], lp_size_count := 3\<rparr>)
 \<and> lp_at key_hasher
       (lp_twice\<lparr>lp_table := (lp_table lp_twice)[8 := Occupied 24 0], lp_size_count := 3\<rparr>) 24 = Inr 0
 \<and> ck_reachable key_hashers (0::nat) INITIAL_CAPACITY ck_eight
 \<and> ck_insert key_hashers ck_eight 24 0 = Inr ck_nine
 \<and> ck_at key_hashers ck_nine 24 = Inr 0"
proof -
  have i1: "sc_insert key_hasher sc_pair 24 0
     = Inr (sc_pair\<lparr>sc_buckets := (sc_buckets sc_pair)[8 := [(24, 0)]], sc_size_count := 3\<rparr>)"
    by code_simp
  have i2: "lp_insert key_hasher lp_twice 24 0
     = Inr (lp_twice\<lparr>lp_table := (lp_table lp_twice)[8 := Occupied 24 0], lp_size_count := 3\<rparr>)"
    by code_simp
  have i3: "ck_insert key_hashers ck_eight 24 0 = Inr ck_nine"
    by code_simp
  from insert_then_at [of key_hasher 0 INITIAL_CAPACITY sc_pair 24 0
      "sc_pair\<lparr>sc_buckets := (sc_buckets sc_pair)[8 := [(24, 0)]], sc_size_count := 3\<rparr>"
      lp_twice
      "lp_twice\<lparr>lp_table := (lp_table lp_twice)[8 := Occupied 24 0], lp_size_count := 3\<rparr>"
      key_hashers ck_eight ck_nine]
    sc_pair_reachable lp_twice_reachable ck_eight_reachable i1 i2 i3
  show ?thesis by simp
qed

section \<open>Proofs: lookups of the probing map\<close>

lemma probe_next: "((orig + n) mod cap + 1) mod cap = (orig + (n + 1)) mod (cap::nat)"
  by (simp add: mod_Suc_eq)

lemma probe_not_back:
  assumes "orig < cap" "0 < m" "m < cap"
  shows "(orig + m) mod cap \<noteq> (orig::nat)"
proof (cases "orig + m < cap")
  case True
  with assms show ?thesis by simp
next
  case False
  then have "(orig + m) mod cap = orig + m - cap"
    using assms by (simp add: le_mod_geq)
  with assms False show ?thesis by simp
qed

lemma lookup_probe_skip:
  assumes "orig < cap" "cap \<le> length table" "n + j < cap"
    "\<forall>i<j. table ! ((orig + (n + i)) mod cap) \<noteq> Empty
           \<and> \<not> occupied_with (table ! ((orig + (n + i)) mod cap)) key"
  shows "lookup_probe table cap key orig ((orig + n) mod cap)
       = lookup_probe table cap key orig ((orig + (n + j)) mod cap)"
  using assms(3,4)
proof (induction j arbitrary: n)
  case 0
  then show ?case by simp
next
  case (Suc j)
  let ?i = "(orig + n) mod cap"
  have "0 < cap" using assms(1) by simp
  from mod_less_divisor [OF this, of "orig + n"] assms(2) have "?i < length table"
    by (rule less_le_trans)
  then have guard: "?i < cap \<and> orig < cap \<and> ?i < length table"
    using assms(1) by simp
  from Suc.prems(2) have here: "table ! ?i \<noteq> Empty" "\<not> occupied_with (table ! ?i) key"
    by (auto dest: spec [of _ 0])
  have eq: "(?i + 1) mod cap = (orig + (n + 1)) mod cap" by (rule probe_next)
  have nb: "(?i + 1) mod cap \<noteq> orig"
    unfolding eq by (rule probe_not_back [OF assms(1)]) (use Suc.prems(1) in simp_all)
  have "lookup_probe table cap key orig ?i
      = lookup_probe table cap key orig ((?i + 1) mod cap)"
    using guard here nb
    by (subst lookup_probe.simps) (auto simp add: Let_def split: Entry.splits)
  then have step: "lookup_probe table cap key orig ?i
      = lookup_probe table cap key orig ((orig + (n + 1)) mod cap)"
    unfolding eq .
  have "\<forall>i<j. table ! ((orig + (n + 1 + i)) mod cap) \<noteq> Empty
           \<and> \<not> occupied_with (table ! ((orig + (n + 1 + i)) mod cap)) key"
  proof (intro allI impI)
    fix i assume "i < j"
    then have "Suc i < Suc j" by simp
    with Suc.prems(2) show "table ! ((orig + (n + 1 + i)) mod cap) \<noteq> Empty
           \<and> \<not> occupied_with (table ! ((orig + (n + 1 + i)) mod cap)) key"
      by (metis add.assoc add.commute plus_1_eq_Suc)
  qed
  from Suc.IH [of "n + 1", OF _ this] Suc.prems(1)
  have "lookup_probe table cap key orig ((orig + (n + 1)) mod cap)
      = lookup_probe table cap key orig ((orig + (n + 1 + j)) mod cap)" by simp
  with step show ?case by (simp add: add.assoc)
qed

lemma lookup_probe_here:
  assumes "index < cap" "orig < cap" "index < length table"
  shows "table ! index = Empty \<Longrightarrow> lookup_probe table cap key orig index = Inr cap"
    and "table ! index = Occupied key v \<Longrightarrow> lookup_probe table cap key orig index = Inr index"
  using assms by (subst lookup_probe.simps, simp)+

lemma lookup_probe_fail:
  assumes "orig < cap" "cap \<le> length table" "n < cap"
    "lookup_probe table cap key orig ((orig + n) mod cap) = Inr cap"
  shows "(\<exists>j. n \<le> j \<and> j < cap \<and> table ! ((orig + j) mod cap) = Empty \<and>
            (\<forall>i. n \<le> i \<and> i < j \<longrightarrow>
               table ! ((orig + i) mod cap) \<noteq> Empty
               \<and> \<not> occupied_with (table ! ((orig + i) mod cap)) key))
       \<or> (\<forall>i. n \<le> i \<and> i < cap \<longrightarrow>
               table ! ((orig + i) mod cap) \<noteq> Empty
               \<and> \<not> occupied_with (table ! ((orig + i) mod cap)) key)"
  using assms(3,4)
proof (induction "cap - n" arbitrary: n)
  case 0
  then show ?case by simp
next
  case (Suc d)
  let ?i = "(orig + n) mod cap"
  have "0 < cap" using assms(1) by simp
  from mod_less_divisor [OF this, of "orig + n"] have ic: "?i < cap" .
  from ic assms(2) have il: "?i < length table" by (rule less_le_trans)
  have eq: "(?i + 1) mod cap = (orig + (n + 1)) mod cap" by (rule probe_next)
  show ?case
  proof (cases "table ! ?i = Empty")
    case True
    with Suc.prems(1) show ?thesis by (intro disjI1 exI [of _ n]) auto
  next
    case ne: False
    show ?thesis
    proof (cases "occupied_with (table ! ?i) key")
      case True
      then obtain v where "table ! ?i = Occupied key v" by (cases "table ! ?i") auto
      from lookup_probe_here(2) [OF ic assms(1) il this] Suc.prems(2) ic
      show ?thesis by simp
    next
      case no: False
      have pass: "table ! ?i \<noteq> Empty \<and> \<not> occupied_with (table ! ?i) key"
        using ne no by simp
      show ?thesis
      proof (cases "n + 1 < cap")
        case True
        have nb: "(?i + 1) mod cap \<noteq> orig"
          unfolding eq by (rule probe_not_back [OF assms(1)]) (use True in simp_all)
        have "lookup_probe table cap key orig ?i
            = lookup_probe table cap key orig ((?i + 1) mod cap)"
          using ic il assms(1) ne no nb
          by (subst lookup_probe.simps) (auto simp add: Let_def split: Entry.splits)
        with Suc.prems(2)
        have rec: "lookup_probe table cap key orig ((orig + (n + 1)) mod cap) = Inr cap"
          unfolding eq by simp
        from Suc.hyps(2) have d: "d = cap - (n + 1)" by simp
        from Suc.hyps(1) [OF d True rec]
        show ?thesis
        proof (elim disjE exE conjE)
          fix j
          assume j: "n + 1 \<le> j" "j < cap" "table ! ((orig + j) mod cap) = Empty"
            and before: "\<forall>i. n + 1 \<le> i \<and> i < j \<longrightarrow>
               table ! ((orig + i) mod cap) \<noteq> Empty
               \<and> \<not> occupied_with (table ! ((orig + i) mod cap)) key"
          have "\<forall>i. n \<le> i \<and> i < j \<longrightarrow>
               table ! ((orig + i) mod cap) \<noteq> Empty
               \<and> \<not> occupied_with (table ! ((orig + i) mod cap)) key"
          proof (intro allI impI)
            fix i assume i: "n \<le> i \<and> i < j"
            show "table ! ((orig + i) mod cap) \<noteq> Empty
               \<and> \<not> occupied_with (table ! ((orig + i) mod cap)) key"
            proof (cases "i = n")
              case True
              with pass show ?thesis by simp
            next
              case False
              with i have "n + 1 \<le> i \<and> i < j" by simp
              with before show ?thesis by blast
            qed
          qed
          with j show ?thesis by (intro disjI1 exI [of _ j]) simp
        next
          assume rest: "\<forall>i. n + 1 \<le> i \<and> i < cap \<longrightarrow>
               table ! ((orig + i) mod cap) \<noteq> Empty
               \<and> \<not> occupied_with (table ! ((orig + i) mod cap)) key"
          have "\<forall>i. n \<le> i \<and> i < cap \<longrightarrow>
               table ! ((orig + i) mod cap) \<noteq> Empty
               \<and> \<not> occupied_with (table ! ((orig + i) mod cap)) key"
          proof (intro allI impI)
            fix i assume i: "n \<le> i \<and> i < cap"
            show "table ! ((orig + i) mod cap) \<noteq> Empty
               \<and> \<not> occupied_with (table ! ((orig + i) mod cap)) key"
            proof (cases "i = n")
              case True
              with pass show ?thesis by simp
            next
              case False
              with i have "n + 1 \<le> i \<and> i < cap" by simp
              with rest show ?thesis by blast
            qed
          qed
          then show ?thesis by (rule disjI2)
        qed
      next
        case False
        with Suc.prems(1) have "n + 1 = cap" by simp
        have "\<forall>i. n \<le> i \<and> i < cap \<longrightarrow>
               table ! ((orig + i) mod cap) \<noteq> Empty
               \<and> \<not> occupied_with (table ! ((orig + i) mod cap)) key"
        proof (intro allI impI)
          fix i assume "n \<le> i \<and> i < cap"
          with \<open>n + 1 = cap\<close> have "i = n" by simp
          with pass show "table ! ((orig + i) mod cap) \<noteq> Empty
               \<and> \<not> occupied_with (table ! ((orig + i) mod cap)) key" by simp
        qed
        then show ?thesis by (rule disjI2)
      qed
    qed
  qed
qed

lemma lookup_probe_tombstone:
  assumes "j < length table" "occupied_with (table ! j) k1" "k1 \<noteq> k2"
  shows "lookup_probe (table[j := Deleted]) cap k2 orig index
       = lookup_probe table cap k2 orig index"
  using assms
proof (induction table cap k2 orig index rule: lookup_probe.induct)
  case (1 table cap key orig index)
  let ?t' = "table[j := Deleted]"
  let ?next = "(index + 1) mod cap"
  note new = lookup_probe.simps [of ?t' cap key orig index]
  note old = lookup_probe.simps [of table cap key orig index]
  show ?case
  proof (cases "index < cap \<and> orig < cap \<and> index < length table")
    case False
    then have a: "(index < cap \<and> orig < cap \<and> index < length table) = False" by simp
    then have b: "(index < cap \<and> orig < cap \<and> index < length ?t') = False" by simp
    have "lookup_probe ?t' cap key orig index = Inl Undefined"
      by (subst new) (simp only: b if_False)
    moreover have "lookup_probe table cap key orig index = Inl Undefined"
      by (subst old) (simp only: a if_False)
    ultimately show ?thesis by simp
  next
    case guard: True
    then have guard': "index < cap \<and> orig < cap \<and> index < length ?t'" by simp
    have continue: "lookup_probe ?t' cap key orig index = lookup_probe table cap key orig index"
      if t: "table ! index = Deleted \<or> (\<exists>k v. table ! index = Occupied k v \<and> k \<noteq> key)"
        and t': "?t' ! index = Deleted \<or> (\<exists>k v. ?t' ! index = Occupied k v \<and> k \<noteq> key)"
    proof (cases "?next \<noteq> orig")
      case False
      have "lookup_probe ?t' cap key orig index = Inr cap"
        using guard' t' False by (auto simp add: new Let_def)
      moreover have "lookup_probe table cap key orig index = Inr cap"
        using guard t False by (auto simp add: old Let_def)
      ultimately show ?thesis by simp
    next
      case True
      have IH: "lookup_probe ?t' cap key orig ?next = lookup_probe table cap key orig ?next"
        using t
      proof (elim disjE exE conjE)
        assume d: "table ! index = Deleted"
        show ?thesis
          by (rule "1.IH"(2) [OF guard d refl True "1.prems"])
      next
        fix k v assume o: "table ! index = Occupied k v" "k \<noteq> key"
        show ?thesis
          by (rule "1.IH"(1) [OF guard o(1) o(2) refl True "1.prems"])
      qed
      have "lookup_probe ?t' cap key orig index = lookup_probe ?t' cap key orig ?next"
        using guard' t' True by (auto simp add: new Let_def)
      moreover have "lookup_probe table cap key orig index = lookup_probe table cap key orig ?next"
        using guard t True by (auto simp add: old Let_def)
      ultimately show ?thesis using IH by simp
    qed
    show ?thesis
    proof (cases "index = j")
      case True
      with "1.prems" obtain v where "table ! index = Occupied k1 v"
        by (cases "table ! j") auto
      moreover from True "1.prems"(1) have "?t' ! index = Deleted" by simp
      ultimately show ?thesis using "1.prems"(3) by (intro continue) auto
    next
      case False
      then have same: "?t' ! index = table ! index" by simp
      show ?thesis
      proof (cases "table ! index")
        case Empty
        with same guard guard' show ?thesis by (simp add: new old)
      next
        case Deleted
        with same show ?thesis by (intro continue) auto
      next
        case (Occupied k v)
        show ?thesis
        proof (cases "k = key")
          case True
          with Occupied same guard guard' show ?thesis by (simp add: new old)
        next
          case False
          with Occupied same show ?thesis by (intro continue) auto
        qed
      qed
    qed
  qed
qed

lemma lp_passes_iff:
  "lp_passes hasher s key i \<longleftrightarrow>
     lp_probe_slot hasher s key i \<noteq> Empty \<and> \<not> occupied_with (lp_probe_slot hasher s key i) key"
  by (cases "lp_probe_slot hasher s key i") (simp_all add: lp_passes_def)

lemma lookup_probe_Inl:
  "lookup_probe table capacity key original_index index = Inl e \<Longrightarrow> e = Undefined"
proof (induction table capacity key original_index index rule: lookup_probe.induct)
  case (1 table capacity key original_index index)
  show ?case
  proof (cases "index < capacity \<and> original_index < capacity \<and> index < length table")
    case False
    with "1.prems" show ?thesis by (simp add: lookup_probe.simps)
  next
    case guard: True
    show ?thesis
    proof (cases "table ! index")
      case Empty
      with guard "1.prems" show ?thesis by (simp add: lookup_probe.simps)
    next
      case Deleted
      show ?thesis
      proof (cases "(index + 1) mod capacity \<noteq> original_index")
        case True
        with guard Deleted "1.prems"
        have rec: "lookup_probe table capacity key original_index ((index + 1) mod capacity) = Inl e"
          by (simp add: lookup_probe.simps [of table capacity key original_index index] Let_def)
        show ?thesis by (rule "1.IH"(2) [OF guard Deleted refl True rec])
      next
        case False
        with guard Deleted "1.prems" show ?thesis
          by (simp add: lookup_probe.simps [of table capacity key original_index index] Let_def)
      qed
    next
      case (Occupied k v)
      show ?thesis
      proof (cases "k = key")
        case True
        with guard Occupied "1.prems" show ?thesis by (simp add: lookup_probe.simps)
      next
        case neq: False
        show ?thesis
        proof (cases "(index + 1) mod capacity \<noteq> original_index")
          case True
          with guard Occupied neq "1.prems"
          have rec: "lookup_probe table capacity key original_index ((index + 1) mod capacity) = Inl e"
            by (simp add: lookup_probe.simps [of table capacity key original_index index] Let_def)
          show ?thesis by (rule "1.IH"(1) [OF guard Occupied neq refl True rec])
        next
          case False
          with guard Occupied neq "1.prems" show ?thesis
            by (simp add: lookup_probe.simps [of table capacity key original_index index] Let_def)
        qed
      qed
    qed
  qed
qed

lemma lp_find_slot_for_lookup_Inl:
  assumes "lp_find_slot_for_lookup hasher s key = Inl e"
  shows "e = Undefined"
  using assms lookup_probe_Inl [of "lp_table s" "lp_capacity s" key _ _ e]
  by (auto simp add: lp_find_slot_for_lookup_def lp_get_hash_def split: if_splits)

lemma lp_lookup_failed:
  assumes "lp_contains_key hasher s key = Inr False
         \<or> lp_at hasher s key = Inl KeyNotFound
         \<or> lp_remove hasher s key = Inr (s, None)"
  shows "lp_find_slot_for_lookup hasher s key = Inr (lp_capacity s)"
proof (cases "lp_find_slot_for_lookup hasher s key")
  case (Inl e)
  from lp_find_slot_for_lookup_Inl [OF Inl] have "e = Undefined" .
  with Inl assms show ?thesis
    by (auto simp add: lp_contains_key_def lp_at_def lp_remove_def)
next
  case (Inr r)
  from lp_find_slot_for_lookup_Inr(2) [OF Inr] assms Inr show ?thesis
    by (auto simp add: lp_contains_key_def lp_at_def lp_remove_def split: Entry.splits)
qed

lemma lp_lookup_found_slot:
  assumes "lp_inv s" "j < lp_capacity s" "\<forall>i<j. lp_passes hasher s key i"
    "lp_probe_slot hasher s key j = Occupied key v"
  shows "lp_find_slot_for_lookup hasher s key
       = Inr ((unat (hasher key) mod lp_capacity s + j) mod lp_capacity s)"
proof -
  let ?cap = "lp_capacity s" and ?t = "lp_table s"
  let ?orig = "unat (hasher key) mod ?cap"
  let ?idx = "(?orig + j) mod ?cap"
  have pos: "0 < ?cap" using assms(2) by simp
  then have orig: "?orig < ?cap" by simp
  have len: "?cap \<le> length ?t" using assms(1) by (simp add: lp_inv_def)
  have idx: "?idx < ?cap" using pos by simp
  then have idxl: "?idx < length ?t" using len by simp
  have "\<forall>i<j. ?t ! ((?orig + (0 + i)) mod ?cap) \<noteq> Empty
           \<and> \<not> occupied_with (?t ! ((?orig + (0 + i)) mod ?cap)) key"
    using assms(3) by (simp add: lp_passes_iff lp_probe_slot_def)
  from lookup_probe_skip [OF orig len _ this] assms(2)
  have "lookup_probe ?t ?cap key ?orig ((?orig + 0) mod ?cap)
      = lookup_probe ?t ?cap key ?orig ?idx" by simp
  moreover have "(?orig + 0) mod ?cap = ?orig" using orig by simp
  moreover from assms(4) have "?t ! ?idx = Occupied key v" by (simp add: lp_probe_slot_def)
  note lookup_probe_here(2) [OF idx orig idxl this]
  ultimately have "lookup_probe ?t ?cap key ?orig ?orig = Inr ?idx" by simp
  with pos show ?thesis
    by (simp add: lp_find_slot_for_lookup_def lp_get_hash_def)
qed

lemma lp_lookup_empty_slot:
  assumes "lp_inv s" "j < lp_capacity s" "\<forall>i<j. lp_passes hasher s key i"
    "lp_probe_slot hasher s key j = Empty"
  shows "lp_find_slot_for_lookup hasher s key = Inr (lp_capacity s)"
proof -
  let ?cap = "lp_capacity s" and ?t = "lp_table s"
  let ?orig = "unat (hasher key) mod ?cap"
  let ?idx = "(?orig + j) mod ?cap"
  have pos: "0 < ?cap" using assms(2) by simp
  then have orig: "?orig < ?cap" by simp
  have len: "?cap \<le> length ?t" using assms(1) by (simp add: lp_inv_def)
  have idx: "?idx < ?cap" using pos by simp
  then have idxl: "?idx < length ?t" using len by simp
  have "\<forall>i<j. ?t ! ((?orig + (0 + i)) mod ?cap) \<noteq> Empty
           \<and> \<not> occupied_with (?t ! ((?orig + (0 + i)) mod ?cap)) key"
    using assms(3) by (simp add: lp_passes_iff lp_probe_slot_def)
  from lookup_probe_skip [OF orig len _ this] assms(2)
  have "lookup_probe ?t ?cap key ?orig ((?orig + 0) mod ?cap)
      = lookup_probe ?t ?cap key ?orig ?idx" by simp
  moreover have "(?orig + 0) mod ?cap = ?orig" using orig by simp
  moreover from assms(4) have "?t ! ?idx = Empty" by (simp add: lp_probe_slot_def)
  note lookup_probe_here(1) [OF idx orig idxl this]
  ultimately have "lookup_probe ?t ?cap key ?orig ?orig = Inr ?cap" by simp
  with pos show ?thesis
    by (simp add: lp_find_slot_for_lookup_def lp_get_hash_def)
qed

lemma lp_lookup_found_all:
  assumes "lp_inv s" "j < lp_capacity s" "\<forall>i<j. lp_passes hasher s key i"
    "lp_probe_slot hasher s key j = Occupied key v"
  shows "lp_at hasher s key = Inr v \<and> lp_contains_key hasher s key = Inr True
       \<and> lp_remove hasher s key
           = Inr (s\<lparr>lp_table := (lp_table s)
                        [(unat (hasher key) mod lp_capacity s + j) mod lp_capacity s := Deleted],
                    lp_deleted_count := lp_deleted_count s + 1,
                    lp_size_count := lp_size_count s - 1\<rparr>, Some v)"
proof -
  have "(unat (hasher key) mod lp_capacity s + j) mod lp_capacity s < lp_capacity s"
    using assms(2) by simp
  with lp_lookup_found_slot [OF assms] assms(4) show ?thesis
    by (simp add: lp_at_def lp_contains_key_def lp_remove_def lp_probe_slot_def)
qed

lemma lp_lookup_empty_all:
  assumes "lp_inv s" "j < lp_capacity s" "\<forall>i<j. lp_passes hasher s key i"
    "lp_probe_slot hasher s key j = Empty"
  shows "lp_at hasher s key = Inl KeyNotFound \<and> lp_contains_key hasher s key = Inr False
       \<and> lp_remove hasher s key = Inr (s, None)"
  using lp_lookup_empty_slot [OF assms]
  by (simp add: lp_at_def lp_contains_key_def lp_remove_def)

lemma lp_lookup_absent_slot:
  assumes "lp_inv s" "lp_find_slot_for_lookup hasher s key = Inr (lp_capacity s)"
  shows "(\<exists>j<lp_capacity s. lp_probe_slot hasher s key j = Empty \<and> (\<forall>i<j. lp_passes hasher s key i))
       \<or> (\<forall>i<lp_capacity s. lp_passes hasher s key i)"
proof -
  let ?cap = "lp_capacity s" and ?t = "lp_table s"
  let ?orig = "unat (hasher key) mod ?cap"
  from lp_find_slot_for_lookup_Inr [OF assms(2)] have pos: "0 < ?cap" by auto
  from pos have orig: "?orig < ?cap" by simp
  have len: "?cap \<le> length ?t" using assms(1) by (simp add: lp_inv_def)
  from assms(2) pos have "lookup_probe ?t ?cap key ?orig ?orig = Inr ?cap"
    by (simp add: lp_find_slot_for_lookup_def lp_get_hash_def)
  moreover have "(?orig + 0) mod ?cap = ?orig" using orig by simp
  ultimately have "lookup_probe ?t ?cap key ?orig ((?orig + 0) mod ?cap) = Inr ?cap" by simp
  from lookup_probe_fail [OF orig len pos this]
  show ?thesis by (simp add: lp_passes_iff lp_probe_slot_def)
qed

lemma entry_counts:
  "length (filter is_occupied xs) + length (filter (\<lambda>e. e = Deleted) xs)
     + length (filter (\<lambda>e. e = Empty) xs) = length xs"
proof (induction xs)
  case Nil
  show ?case by simp
next
  case (Cons x xs)
  then show ?case by (cases x) simp_all
qed

lemma lp_remove_filled:
  assumes "lp_remove hasher s key = Inr (s', r)" "lp_inv s"
  shows "lp_size_count s' + lp_deleted_count s' = lp_size_count s + lp_deleted_count s"
proof -
  from assms(1) obtain j where j: "lp_find_slot_for_lookup hasher s key = Inr j"
    by (auto simp add: lp_remove_def split: sum.splits)
  note f = lp_find_slot_for_lookup_Inr [OF j]
  show ?thesis
  proof (cases "j < lp_capacity s")
    case False
    with assms j show ?thesis by (simp add: lp_remove_def)
  next
    case True
    with f(2) have jl: "j < length (lp_table s)" and ow: "occupied_with (lp_table s ! j) key"
      by auto
    from ow obtain k v where e: "lp_table s ! j = Occupied k v" by (cases "lp_table s ! j") auto
    with assms(1) j True have s': "s' = s\<lparr>lp_table := (lp_table s)[j := Deleted],
        lp_deleted_count := lp_deleted_count s + 1, lp_size_count := lp_size_count s - 1\<rparr>"
      by (simp add: lp_remove_def)
    from length_filter_update [OF jl, of is_occupied Deleted] e assms(2)
    have "lp_size_count s = Suc (length (filter is_occupied ((lp_table s)[j := Deleted])))"
      by (simp add: lp_inv_def)
    then show ?thesis by (simp add: s')
  qed
qed

lemma lp_insert_filled:
  assumes "lp_insert hasher s key val = Inr s'" "lp_inv s" "4 \<le> lp_capacity s"
    "lp_size_count s + lp_deleted_count s < lp_capacity s"
  shows "lp_size_count s' + lp_deleted_count s' < lp_capacity s'"
proof -
  let ?t = "if lp_needs_rehash s then lp_rehash hasher s else Inr s"
  from assms(1) obtain t where t: "?t = Inr t" "lp_inner_insert hasher t key val = Inr s'"
    by (auto simp add: lp_insert_def split: sum.splits)
  show ?thesis
  proof (cases "lp_needs_rehash s")
    case False
    with t(1) have ts: "t = s" by simp
    note ii = lp_inner_insert_inv [OF t(2) [unfolded ts] assms(2)]
    from False have "10 * (lp_size_count s + lp_deleted_count s) \<le> 7 * lp_capacity s"
      by (simp add: lp_needs_rehash_def)
    with ii(2,4,5) assms(3) show ?thesis by simp
  next
    case True
    with t(1) have r: "lp_rehash hasher s = Inr t" by simp
    note ri = lp_rehash_inv [OF r assms(2)]
    note ii = lp_inner_insert_inv [OF t(2) ri(1)]
    from ii(2,4,5) ri(2,3,4) assms(3,4) show ?thesis by simp
  qed
qed

lemma lp_reachable_filled:
  assumes "lp_reachable hasher dflt c s" "4 \<le> c"
  shows "4 \<le> lp_capacity s \<and> lp_size_count s + lp_deleted_count s < lp_capacity s"
  using assms(1)
proof (induction rule: lp_reachable.induct)
  case lp_reach_new
  from assms(2) show ?case by (simp add: lp_new_def)
next
  case (lp_reach_step s op s')
  from lp_reachable_inv [OF lp_reach_step.hyps(1)] have inv: "lp_inv s" by simp
  from lp_reach_step.hyps(2) show ?case
  proof (cases rule: lp_apply_cases)
    case (insert key val)
    from lp_insert_inv(2) [OF insert inv] lp_insert_filled [OF insert inv] lp_reach_step.IH
    show ?thesis by simp
  next
    case (remove key r)
    from lp_remove_inv [OF remove inv] lp_remove_filled [OF remove inv] lp_reach_step.IH
    show ?thesis by simp
  next
    case clear
    with lp_reach_step.IH show ?thesis by (simp add: lp_clear_def)
  next
    case same
    with lp_reach_step.IH show ?thesis by simp
  qed
qed

lemma probe_covers:
  assumes "e < cap" "orig < (cap::nat)"
  shows "\<exists>i<cap. (orig + i) mod cap = e"
proof (intro exI conjI)
  let ?i = "(e + cap - orig) mod cap"
  show "?i < cap" using assms by simp
  have "(orig + ?i) mod cap = (orig + (e + cap - orig)) mod cap"
    by (simp add: mod_add_right_eq)
  also have "orig + (e + cap - orig) = e + cap" using assms by simp
  also have "(e + cap) mod cap = e" using assms by simp
  finally show "(orig + ?i) mod cap = e" .
qed

lemma lp_has_empty:
  assumes "lp_inv s" "lp_size_count s + lp_deleted_count s < lp_capacity s"
  shows "\<exists>i<lp_capacity s. lp_probe_slot hasher s key i = Empty"
proof -
  from entry_counts [of "lp_table s"] assms
  have "filter (\<lambda>e. e = Empty) (lp_table s) \<noteq> []" by (auto simp add: lp_inv_def)
  then have "Empty \<in> set (lp_table s)"
    by (metis (mono_tags, lifting) filter_False)
  then obtain e where e: "e < length (lp_table s)" "lp_table s ! e = Empty"
    by (auto simp add: in_set_conv_nth)
  from e(1) assms(1) have ec: "e < lp_capacity s" by (simp add: lp_inv_def)
  then have "unat (hasher key) mod lp_capacity s < lp_capacity s" by simp
  from probe_covers [OF ec this] e(2) show ?thesis
    by (auto simp add: lp_probe_slot_def)
qed

lemma lp_lookup_absent_empty:
  assumes "lp_inv s" "lp_size_count s + lp_deleted_count s < lp_capacity s"
    "lp_find_slot_for_lookup hasher s key = Inr (lp_capacity s)"
  shows "\<exists>j<lp_capacity s. lp_probe_slot hasher s key j = Empty \<and> (\<forall>i<j. lp_passes hasher s key i)"
proof -
  from lp_has_empty [OF assms(1,2), of hasher key]
  have "\<not> (\<forall>i<lp_capacity s. lp_passes hasher s key i)"
    by (auto simp add: lp_passes_def)
  with lp_lookup_absent_slot [OF assms(1,3)] show ?thesis by blast
qed

lemma lp_remove_other:
  assumes "lp_remove hasher s k1 = Inr (s', r)" "k1 \<noteq> k2"
  shows "lp_at hasher s' k2 = lp_at hasher s k2
       \<and> lp_contains_key hasher s' k2 = lp_contains_key hasher s k2"
proof -
  from assms(1) obtain j where j: "lp_find_slot_for_lookup hasher s k1 = Inr j"
    by (auto simp add: lp_remove_def split: sum.splits)
  note f = lp_find_slot_for_lookup_Inr [OF j]
  show ?thesis
  proof (cases "j < lp_capacity s")
    case False
    with assms(1) j show ?thesis by (simp add: lp_remove_def)
  next
    case True
    with f(2) have jl: "j < length (lp_table s)" and ow: "occupied_with (lp_table s ! j) k1"
      by auto
    from ow obtain k v where e: "lp_table s ! j = Occupied k v" by (cases "lp_table s ! j") auto
    with assms(1) j True have "s' = s\<lparr>lp_table := (lp_table s)[j := Deleted],
        lp_deleted_count := lp_deleted_count s + 1, lp_size_count := lp_size_count s - 1\<rparr>"
      by (auto simp add: lp_remove_def)
    then have s': "lp_table s' = (lp_table s)[j := Deleted]"
      "lp_capacity s' = lp_capacity s"
      by simp_all
    have same: "lp_find_slot_for_lookup hasher s' k2 = lp_find_slot_for_lookup hasher s k2"
      using lookup_probe_tombstone [OF jl ow assms(2)] s'
      by (simp add: lp_find_slot_for_lookup_def lp_get_hash_def)
    show ?thesis
    proof (cases "lp_find_slot_for_lookup hasher s k2")
      case (Inl e)
      with same show ?thesis by (simp add: lp_at_def lp_contains_key_def)
    next
      case (Inr i)
      show ?thesis
      proof (cases "i < lp_capacity s")
        case False
        with Inr same s' show ?thesis by (simp add: lp_at_def lp_contains_key_def)
      next
        case True
        with lp_find_slot_for_lookup_Inr(2) [OF Inr]
        have "occupied_with (lp_table s ! i) k2" by auto
        with ow assms(2) have "i \<noteq> j" by (cases "lp_table s ! j") auto
        then have "lp_table s' ! i = lp_table s ! i" using s' by simp
        with Inr same s' show ?thesis by (simp add: lp_at_def lp_contains_key_def)
      qed
    qed
  qed
qed

text \<open>
  Claim C5 as stated (a lookup is terminated unsuccessfully only by an Empty slot). A
  probing map constructed with capacity 2, after \<^verbatim>\<open>insert(0, 10)\<close>,
  \<^verbatim>\<open>remove(0)\<close> and \<^verbatim>\<open>insert(1, 20)\<close>, holds a tombstone in slot 0 and
  the key 1 in slot 1. The lookups of the key 2 by \<^verbatim>\<open>contains_key\<close>, \<^verbatim>\<open>at\<close>
  and \<^verbatim>\<open>remove\<close> pass both slots and fail when the probe is back at its first
  slot, where the \<^verbatim>\<open>do ... while\<close> loop ends: no slot of the table is Empty.
\<close>

theorem lookup_fails_without_empty_slot:
  "lp_run key_hasher (0::nat) [OpInsert 0 10, OpRemove 0, OpInsert 1 20] (lp_new 2) = Inr lp_small
   \<and> lp_table lp_small = [Deleted, Occupied 1 20]
   \<and> lp_contains_key key_hasher lp_small 2 = Inr False
   \<and> lp_at key_hasher lp_small 2 = Inl KeyNotFound
   \<and> lp_remove key_hasher lp_small 2 = Inr (lp_small, None)"
  by code_simp

text \<open>
  Claim C5, amended. In every state of the probing map that the public operations can
  produce, a lookup (\<^verbatim>\<open>at\<close>, \<^verbatim>\<open>contains_key\<close> and the lookup of \<^verbatim>\<open>remove\<close>,
  all through \<^verbatim>\<open>find_slot_for_lookup\<close>) probes consecutive slots from
  \<open>hash(key) mod capacity\<close> and passes every tombstone and every slot that holds
  another key. If the slots before the \<open>j\<close>-th are of these two kinds, then a \<open>j\<close>-th
  slot that holds the key makes the lookup succeed: \<^verbatim>\<open>at\<close> returns its value,
  \<^verbatim>\<open>contains_key\<close> returns true and \<^verbatim>\<open>remove\<close> turns that slot into a tombstone
  and returns the value; and a \<open>j\<close>-th slot that is Empty makes it fail: \<^verbatim>\<open>at\<close>
  throws, \<^verbatim>\<open>contains_key\<close> returns false and \<^verbatim>\<open>remove\<close> returns nothing and
  changes nothing. A lookup that fails has met an Empty slot after slots of these two
  kinds, or has probed all \<open>capacity\<close> slots and found each of these two kinds; in a
  map constructed with a capacity of at least 4 (the default 16 included) some slot is
  always Empty, and a lookup that fails has met an Empty slot. Consequently removing a
  key changes the result of no lookup of another key: a key that probed past the
  removed key's slot is still found.
\<close>

theorem lookup_passes_tombstones:
  assumes "lp_reachable hasher dflt c s"
  shows
    "(j < lp_capacity s \<and> (\<forall>i<j. lp_passes hasher s key i)
        \<and> lp_probe_slot hasher s key j = Occupied key v
      \<longrightarrow> lp_at hasher s key = Inr v \<and> lp_contains_key hasher s key = Inr True
          \<and> lp_remove hasher s key
              = Inr (s\<lparr>lp_table := (lp_table s)
                          [(unat (hasher key) mod lp_capacity s + j) mod lp_capacity s := Deleted],
                       lp_deleted_count := lp_deleted_count s + 1,
                       lp_size_count := lp_size_count s - 1\<rparr>, Some v))
   \<and> (j' < lp_capacity s \<and> (\<forall>i<j'. lp_passes hasher s key' i)
        \<and> lp_probe_slot hasher s key' j' = Empty
      \<longrightarrow> lp_at hasher s key' = Inl KeyNotFound \<and> lp_contains_key hasher s key' = Inr False
          \<and> lp_remove hasher s key' = Inr (s, None))
   \<and> (lp_contains_key hasher s key' = Inr False \<or> lp_at hasher s key' = Inl KeyNotFound
        \<or> lp_remove hasher s key' = Inr (s, None)
      \<longrightarrow> (\<exists>j<lp_capacity s. lp_probe_slot hasher s key' j = Empty
                \<and> (\<forall>i<j. lp_passes hasher s key' i))
          \<or> (\<forall>i<lp_capacity s. lp_passes hasher s key' i))
   \<and> (4 \<le> c \<and> (lp_contains_key hasher s key' = Inr False
                 \<or> lp_at hasher s key' = Inl KeyNotFound
                 \<or> lp_remove hasher s key' = Inr (s, None))
      \<longrightarrow> (\<exists>j<lp_capacity s. lp_probe_slot hasher s key' j = Empty
                \<and> (\<forall>i<j. lp_passes hasher s key' i)))
   \<and> (ka \<noteq> kb \<and> lp_remove hasher s ka = Inr (s', r)
      \<longrightarrow> lp_at hasher s' kb = lp_at hasher s kb
          \<and> lp_contains_key hasher s' kb = lp_contains_key hasher s kb)"
proof -
  from lp_reachable_inv [OF assms] have inv: "lp_inv s" by simp
  have found: "j < lp_capacity s \<and> (\<forall>i<j. lp_passes hasher s key i)
        \<and> lp_probe_slot hasher s key j = Occupied key v
      \<longrightarrow> lp_at hasher s key = Inr v \<and> lp_contains_key hasher s key = Inr True
          \<and> lp_remove hasher s key
              = Inr (s\<lparr>lp_table := (lp_table s)
                          [(unat (hasher key) mod lp_capacity s + j) mod lp_capacity s := Deleted],
                       lp_deleted_count := lp_deleted_count s + 1,
                       lp_size_count := lp_size_count s - 1\<rparr>, Some v)"
    using lp_lookup_found_all [OF inv, of j hasher key v] by blast
  have empty: "j' < lp_capacity s \<and> (\<forall>i<j'. lp_passes hasher s key' i)
        \<and> lp_probe_slot hasher s key' j' = Empty
      \<longrightarrow> lp_at hasher s key' = Inl KeyNotFound \<and> lp_contains_key hasher s key' = Inr False
          \<and> lp_remove hasher s key' = Inr (s, None)"
    using lp_lookup_empty_all [OF inv, of j' hasher key'] by blast
  have absent: "lp_contains_key hasher s key' = Inr False \<or> lp_at hasher s key' = Inl KeyNotFound
        \<or> lp_remove hasher s key' = Inr (s, None)
      \<longrightarrow> (\<exists>j<lp_capacity s. lp_probe_slot hasher s key' j = Empty
                \<and> (\<forall>i<j. lp_passes hasher s key' i))
          \<or> (\<forall>i<lp_capacity s. lp_passes hasher s key' i)"
  proof
    assume "lp_contains_key hasher s key' = Inr False \<or> lp_at hasher s key' = Inl KeyNotFound
        \<or> lp_remove hasher s key' = Inr (s, None)"
    then have "lp_find_slot_for_lookup hasher s key' = Inr (lp_capacity s)"
      by (rule lp_lookup_failed)
    with inv show "(\<exists>j<lp_capacity s. lp_probe_slot hasher s key' j = Empty
                \<and> (\<forall>i<j. lp_passes hasher s key' i))
          \<or> (\<forall>i<lp_capacity s. lp_passes hasher s key' i)"
      by (rule lp_lookup_absent_slot)
  qed
  have absent4: "4 \<le> c \<and> (lp_contains_key hasher s key' = Inr False
                 \<or> lp_at hasher s key' = Inl KeyNotFound
                 \<or> lp_remove hasher s key' = Inr (s, None))
      \<longrightarrow> (\<exists>j<lp_capacity s. lp_probe_slot hasher s key' j = Empty
                \<and> (\<forall>i<j. lp_passes hasher s key' i))"
  proof (intro impI, elim conjE)
    assume c: "4 \<le> c"
      and "lp_contains_key hasher s key' = Inr False \<or> lp_at hasher s key' = Inl KeyNotFound
        \<or> lp_remove hasher s key' = Inr (s, None)"
    then have f: "lp_find_slot_for_lookup hasher s key' = Inr (lp_capacity s)"
      by (intro lp_lookup_failed)
    from lp_reachable_filled [OF assms c]
    have "lp_size_count s + lp_deleted_count s < lp_capacity s" by simp
    from lp_lookup_absent_empty [OF inv this f]
    show "\<exists>j<lp_capacity s. lp_probe_slot hasher s key' j = Empty
                \<and> (\<forall>i<j. lp_passes hasher s key' i)" .
  qed
  have other: "ka \<noteq> kb \<and> lp_remove hasher s ka = Inr (s', r)
      \<longrightarrow> lp_at hasher s' kb = lp_at hasher s kb
          \<and> lp_contains_key hasher s' kb = lp_contains_key hasher s kb"
    using lp_remove_other [of hasher s ka s' r kb] by blast
  from found empty absent absent4 other show ?thesis by (intro conjI)
qed

lemma lp_chain_reachable: "lp_reachable key_hasher (0::nat) INITIAL_CAPACITY lp_chain"
proof (rule lp_run_reachable)
  show "lp_run key_hasher 0 [OpInsert 0 10, OpInsert 16 20, OpInsert 32 30, OpRemove 0]
          (lp_new INITIAL_CAPACITY) = Inr lp_chain"
    by code_simp
qed

theorem lookup_passes_tombstones_witness:
  "lp_reachable key_hasher (0::nat) INITIAL_CAPACITY lp_chain
 \<and> 4 \<le> INITIAL_CAPACITY
 \<and> lp_probe_slot key_hasher lp_chain 32 0 = Deleted
 \<and> lp_probe_slot key_hasher lp_chain 32 1 = Occupied 16 20
 \<and> lp_probe_slot key_hasher lp_chain 32 2 = Occupied 32 30
 \<and> lp_at key_hasher lp_chain 32 = Inr 30
 \<and> lp_contains_key key_hasher lp_chain 32 = Inr True
 \<and> lp_probe_slot key_hasher lp_chain 48 3 = Empty
 \<and> lp_at key_hasher lp_chain 48 = Inl KeyNotFound
 \<and> lp_contains_key key_hasher lp_chain 48 = Inr False
 \<and> lp_remove key_hasher lp_chain 48 = Inr (lp_chain, None)
 \<and> lp_remove key_hasher lp_chain 16 = Inr (lp_chain_removed, Some 20)
 \<and> lp_at key_hasher lp_chain_removed 32 = lp_at key_hasher lp_chain 32"
proof -
  have slots: "lp_probe_slot key_hasher lp_chain 32 0 = Deleted"
    "lp_probe_slot key_hasher lp_chain 32 1 = Occupied 16 20"
    "lp_probe_slot key_hasher lp_chain 32 2 = Occupied 32 30"
    "lp_probe_slot key_hasher lp_chain 48 3 = Empty"
    by code_simp+
  have cap: "(2::nat) < lp_capacity lp_chain" "(3::nat) < lp_capacity lp_chain"
    "4 \<le> INITIAL_CAPACITY"
    by code_simp+
  have p32: "\<forall>i<2. lp_passes key_hasher lp_chain 32 i"
  proof (intro allI impI)
    fix i :: nat assume "i < 2"
    then have "i = 0 \<or> i = 1" by auto
    moreover have "lp_passes key_hasher lp_chain 32 0" "lp_passes key_hasher lp_chain 32 1"
      by code_simp+
    ultimately show "lp_passes key_hasher lp_chain 32 i" by auto
  qed
  have p48: "\<forall>i<3. lp_passes key_hasher lp_chain 48 i"
  proof (intro allI impI)
    fix i :: nat assume "i < 3"
    then have "i = 0 \<or> i = 1 \<or> i = 2" by auto
    moreover have "lp_passes key_hasher lp_chain 48 0" "lp_passes key_hasher lp_chain 48 1"
      "lp_passes key_hasher lp_chain 48 2"
      by code_simp+
    ultimately show "lp_passes key_hasher lp_chain 48 i" by auto
  qed
  have rm: "lp_remove key_hasher lp_chain 16 = Inr (lp_chain_removed, Some 20)"
    by code_simp
  have ne: "(16 :: u64) \<noteq> 32" by simp
  note inst = lookup_passes_tombstones [OF lp_chain_reachable,
      where j = 2 and key = 32 and v = 30 and j' = 3 and key' = 48
        and ka = 16 and kb = 32 and s' = lp_chain_removed and r = "Some 20"]
  from inst slots cap(1) p32 have found: "lp_at key_hasher lp_chain 32 = Inr 30"
    "lp_contains_key key_hasher lp_chain 32 = Inr True"
    by blast+
  from inst slots cap(2) p48 have empty: "lp_at key_hasher lp_chain 48 = Inl KeyNotFound"
    "lp_contains_key key_hasher lp_chain 48 = Inr False"
    "lp_remove key_hasher lp_chain 48 = Inr (lp_chain, None)"
    by blast+
  from inst cap(3) empty(2)
  have "\<exists>j<lp_capacity lp_chain. lp_probe_slot key_hasher lp_chain 48 j = Empty
          \<and> (\<forall>i<j. lp_passes key_hasher lp_chain 48 i)"
    by blast
  from inst rm ne
  have other: "lp_at key_hasher lp_chain_removed 32 = lp_at key_hasher lp_chain 32"
    by blast
  from lp_chain_reachable cap(3) slots found empty rm other show ?thesis by simp
qed

end
